theory Spec2Isabelle
  imports Main "HOL-Library.Sublist"
begin

section \<open>Python strings\<close>

text \<open>
  A Python \<open>str\<close> is a sequence of Unicode code points, and \<open>len\<close>, slicing,
  \<open>startswith\<close> and \<open>find\<close> count code points. A string is therefore modelled as
  a list of code points (natural numbers), written in hexadecimal.
\<close>

type_synonym uchar = nat
type_synonym ustr = "uchar list"

text \<open>The characters for which \<open>str.isspace\<close> holds; the regular expression class
  \<open>\s\<close> on a \<open>str\<close> pattern matches the same ones.\<close>

definition is_space :: "uchar \<Rightarrow> bool" where
  "is_space c \<longleftrightarrow>
     (0x09 \<le> c \<and> c \<le> 0x0D) \<or> (0x1C \<le> c \<and> c \<le> 0x20) \<or> c = 0x85 \<or> c = 0xA0 \<or>
     c = 0x1680 \<or> (0x2000 \<le> c \<and> c \<le> 0x200A) \<or> c = 0x2028 \<or> c = 0x2029 \<or>
     c = 0x202F \<or> c = 0x205F \<or> c = 0x3000"

text \<open>The regular expression class \<open>\d\<close> on a \<open>str\<close> pattern: the decimal digits
  of Unicode (category Nd, Unicode 14.0), which come in runs of ten; the list holds the
  code point of the zero of each run.\<close>

definition decimal_zeros :: "uchar list" where
  "decimal_zeros =
    [0x30, 0x660, 0x6F0, 0x7C0, 0x966, 0x9E6, 0xA66, 0xAE6, 0xB66, 0xBE6, 0xC66, 0xCE6,
     0xD66, 0xDE6, 0xE50, 0xED0, 0xF20, 0x1040, 0x1090, 0x17E0, 0x1810, 0x1946, 0x19D0,
     0x1A80, 0x1A90, 0x1B50, 0x1BB0, 0x1C40, 0x1C50, 0xA620, 0xA8D0, 0xA900, 0xA9D0,
     0xA9F0, 0xAA50, 0xABF0, 0xFF10, 0x104A0, 0x10D30, 0x11066, 0x110F0, 0x11136,
     0x111D0, 0x112F0, 0x11450, 0x114D0, 0x11650, 0x116C0, 0x11730, 0x118E0, 0x11950,
     0x11C50, 0x11D50, 0x11DA0, 0x16A60, 0x16AC0, 0x16B50, 0x1D7CE, 0x1D7D8, 0x1D7E2,
     0x1D7EC, 0x1D7F6, 0x1E140, 0x1E2F0, 0x1E950, 0x1FBF0]"

definition is_decimal :: "uchar \<Rightarrow> bool" where
  "is_decimal c \<longleftrightarrow> list_ex (\<lambda>z. z \<le> c \<and> c < z + 10) decimal_zeros"

text \<open>The character class \<open>[\<dots>]\<close> of the two patterns that look for a name segment:
  the range from U+4E00 to U+9FA5.\<close>

definition is_han :: "uchar \<Rightarrow> bool" where
  "is_han c \<longleftrightarrow> 0x4E00 \<le> c \<and> c \<le> 0x9FA5"

text \<open>\<open>s.strip()\<close>, \<open>s.lstrip(chars)\<close>, \<open>s.startswith(p)\<close>, \<open>s.endswith(p)\<close>.\<close>

definition strip :: "ustr \<Rightarrow> ustr" where
  "strip s = rev (dropWhile is_space (rev (dropWhile is_space s)))"

definition lstrip :: "ustr \<Rightarrow> ustr \<Rightarrow> ustr" where
  "lstrip chars s = dropWhile (\<lambda>c. c \<in> set chars) s"

definition startswith :: "ustr \<Rightarrow> ustr \<Rightarrow> bool" where
  "startswith s p \<longleftrightarrow> take (length p) s = p"

definition endswith :: "ustr \<Rightarrow> ustr \<Rightarrow> bool" where
  "endswith s p \<longleftrightarrow> length p \<le> length s \<and> drop (length s - length p) s = p"

text \<open>\<open>s.find(p)\<close>: the lowest index at which \<open>p\<close> occurs in \<open>s\<close>, or \<open>-1\<close>.
  \<open>find_str\<close> is the search, \<open>py_find\<close> the value Python returns, and
  \<open>p in s\<close> holds exactly when the search succeeds.\<close>

fun find_str :: "ustr \<Rightarrow> ustr \<Rightarrow> nat option" where
  "find_str [] p = (if p = [] then Some 0 else None)"
| "find_str (c # s) p =
     (if startswith (c # s) p then Some 0 else map_option Suc (find_str s p))"

definition py_find :: "ustr \<Rightarrow> ustr \<Rightarrow> int" where
  "py_find s p = (case find_str s p of None \<Rightarrow> - 1 | Some i \<Rightarrow> int i)"

text \<open>\<open>s[i:]\<close> for an integer \<open>i\<close>: a negative index counts from the end.\<close>

definition slice_from :: "ustr \<Rightarrow> int \<Rightarrow> ustr" where
  "slice_from s i = (if i < 0 then drop (nat (int (length s) + i)) s else drop (nat i) s)"

text \<open>\<open>sep.join(xs)\<close> and \<open>dict.fromkeys(xs)\<close> read back as a sequence: each value
  once, at the place of its first occurrence.\<close>

fun join :: "ustr \<Rightarrow> ustr list \<Rightarrow> ustr" where
  "join sep [] = []"
| "join sep [x] = x"
| "join sep (x # y # ys) = x @ sep @ join sep (y # ys)"

fun fromkeys :: "ustr list \<Rightarrow> ustr list" where
  "fromkeys [] = []"
| "fromkeys (x # xs) = x # fromkeys (filter (\<lambda>y. y \<noteq> x) xs)"

section \<open>The extractor's data\<close>

record PlaceNameRecord =
  placename :: ustr
  text' :: ustr
  source :: ustr

definition DYNASTIES :: "ustr list" where
  "DYNASTIES = [[0x6F22], [0x9B4F], [0x6649], [0x968B], [0x5510], [0x5B8B], [0x5143],
     [0x660E], [0x6E05], [0x79E6], [0x9F4A], [0x6881], [0x5468], [0x5F8C, 0x6F22],
     [0x5143, 0x9B4F], [0x5317, 0x9F4A]]"

definition ADMIN_LEVELS :: "ustr list" where
  "ADMIN_LEVELS = [[0x90E1], [0x5DDE], [0x5E9C], [0x9053], [0x8DEF]]"

definition PREFIX_VERBS :: "ustr list" where
  "PREFIX_VERBS = [[0x7F6E], [0x6539], [0x5206], [0x6790], [0x79FB], [0x96B8], [0x5C6C],
     [0x5E76], [0x65BC], [0x5728], [0x672C], [0x820A], [0x4ECA], [0x5C0B], [0x6B64]]"

definition STOP_START_WORDS :: "ustr list" where
  "STOP_START_WORDS = [[0x5728], [0x53CA], [0x4E0E], [0x4E4B], [0x5176], [0x6B64],
     [0x65E7], [0x4ECE], [0x81F3], [0x754C], [0x6709], [0x8C13]]"

definition PLACE_SUFFIXES :: "ustr list" where
  "PLACE_SUFFIXES = [[0x7E23], [0x5DDE], [0x90E1], [0x5E9C], [0x9053], [0x5C71], [0x6C34],
     [0x6CB3], [0x5DDD], [0x539F], [0x8C37], [0x57CE], [0x95DC], [0x6D25], [0x5761],
     [0x9675], [0x5BAE], [0x6EAA], [0x5CA9], [0x6F6D]]"

text \<open>The literal list of \<open>extract_valid_placename\<close> (south, north, west, east, seat,
  boundary), and the characters of the two \<open>lstrip\<close> calls and of the separator class:
  space, fullwidth semicolon, fullwidth comma, ideographic full stop.\<close>

definition direction_words :: "ustr list" where
  "direction_words = [[0x5357], [0x5317], [0x897F], [0x4E1C], [0x6CBB], [0x754C]]"

definition strip_chars :: ustr where
  "strip_chars = [0x20, 0xFF1B, 0xFF0C, 0x3002]"

definition max_iterations :: nat where
  "max_iterations = 10"

section \<open>clean_line_start\<close>

text \<open>Step 1, \<open>re.sub(r"^\d+\s*", "", line)\<close>: a leading run of digits and the white
  space after it are removed; a line that does not start with a digit is left alone.\<close>

definition strip_leading_number :: "ustr \<Rightarrow> ustr" where
  "strip_leading_number line =
     (case line of [] \<Rightarrow> []
      | c # _ \<Rightarrow> if is_decimal c then dropWhile is_space (dropWhile is_decimal line) else line)"

text \<open>One turn of the loops over \<open>DYNASTIES\<close> and \<open>PREFIX_VERBS\<close>.\<close>

definition strip_token :: "ustr \<Rightarrow> ustr \<Rightarrow> ustr" where
  "strip_token tok line =
     (if startswith line tok then lstrip strip_chars (drop (length tok) line) else line)"

text \<open>\<open>re.match\<close> of one or two characters of the range followed by the token \<open>admin\<close>:
  the length of the match. The quantifier is greedy, so two characters are tried first.\<close>

definition match_admin :: "ustr \<Rightarrow> ustr \<Rightarrow> nat option" where
  "match_admin admin line =
     (if 2 \<le> length line \<and> is_han (line ! 0) \<and> is_han (line ! 1) \<and> startswith (drop 2 line) admin
      then Some (2 + length admin)
      else if 1 \<le> length line \<and> is_han (line ! 0) \<and> startswith (drop 1 line) admin
      then Some (1 + length admin)
      else None)"

definition strip_admin :: "ustr \<Rightarrow> ustr \<Rightarrow> ustr" where
  "strip_admin admin line =
     (case match_admin admin line of None \<Rightarrow> line
      | Some n \<Rightarrow> lstrip strip_chars (drop n line))"

text \<open>The body of the \<open>while\<close> loop: the three \<open>for\<close> loops, each working on the line
  the one before left.\<close>

definition rewrite_pass :: "ustr \<Rightarrow> ustr" where
  "rewrite_pass line =
     fold strip_token PREFIX_VERBS (fold strip_admin ADMIN_LEVELS (fold strip_token DYNASTIES line))"

text \<open>The \<open>while\<close> loop, with the counter \<open>iteration\<close> it carries; the result is the
  line and the counter at the exit.\<close>

function clean_loop :: "nat \<Rightarrow> ustr \<Rightarrow> ustr \<times> nat" where
  "clean_loop iteration line =
     (if iteration < max_iterations
      then (let line' = rewrite_pass line
            in if line = line' then (line, iteration) else clean_loop (iteration + 1) line')
      else (line, iteration))"
  by pat_completeness auto
termination
  by (relation "measure (\<lambda>(iteration, line). max_iterations - iteration)") auto

declare clean_loop.simps [simp del]

definition clean_line_start :: "ustr \<Rightarrow> ustr" where
  "clean_line_start line = fst (clean_loop 0 (strip (strip_leading_number line)))"

section \<open>extract_valid_placename\<close>

text \<open>\<open>re.match(r"^[\<dots>\s]", after_name)\<close>: the first character is a fullwidth comma,
  an ideographic full stop, a fullwidth semicolon or white space.\<close>

definition match_separator :: "ustr \<Rightarrow> bool" where
  "match_separator s =
     (case s of [] \<Rightarrow> False | c # _ \<Rightarrow> c = 0xFF0C \<or> c = 0x3002 \<or> c = 0xFF1B \<or> is_space c)"

text \<open>The loop over the suffixes; every \<open>continue\<close> is the recursive call on the rest
  of the list.\<close>

fun scan_suffixes :: "ustr list \<Rightarrow> ustr \<Rightarrow> ustr option" where
  "scan_suffixes [] cleaned_start = None"
| "scan_suffixes (sfx # rest) cleaned_start =
     (case find_str cleaned_start sfx of
        None \<Rightarrow> scan_suffixes rest cleaned_start
      | Some idx \<Rightarrow>
          (let potential_name = take (idx + 1) cleaned_start
           in if \<not> (2 \<le> length potential_name \<and> length potential_name \<le> 3)
              then scan_suffixes rest cleaned_start
              else if list_ex (startswith potential_name) STOP_START_WORDS
              then scan_suffixes rest cleaned_start
              else (let after_name = drop (idx + 1) cleaned_start
                    in if after_name \<noteq> [] \<and> \<not> match_separator after_name
                          \<and> list_ex (startswith after_name) direction_words
                       then scan_suffixes rest cleaned_start
                       else Some potential_name)))"

definition extract_valid_placename :: "ustr \<Rightarrow> ustr option" where
  "extract_valid_placename line =
     (let cleaned_start = clean_line_start line
      in if cleaned_start = [] then None else scan_suffixes PLACE_SUFFIXES cleaned_start)"

section \<open>is_valid_placename and validate_and_resolve\<close>

definition is_valid_placename :: "ustr \<Rightarrow> bool" where
  "is_valid_placename name =
     (if \<not> (2 \<le> length name \<and> length name \<le> 4) then False
      else if list_ex (startswith name) STOP_START_WORDS then False
      else if \<not> list_ex (endswith name) PLACE_SUFFIXES then False
      else True)"

text \<open>The pattern of \<open>validate_and_resolve\<close>: one or two characters of the range,
  then one of the suffixes, the alternatives tried in the order of the list.
  \<open>match_alternative\<close> is the length of the alternative that matches at the head of a
  string, \<open>match_candidate\<close> the length of the whole match there.\<close>

fun match_alternative :: "ustr list \<Rightarrow> ustr \<Rightarrow> nat option" where
  "match_alternative [] s = None"
| "match_alternative (a # as) s =
     (if startswith s a then Some (length a) else match_alternative as s)"

definition match_candidate :: "ustr \<Rightarrow> nat option" where
  "match_candidate s =
     (if 2 \<le> length s \<and> is_han (s ! 0) \<and> is_han (s ! 1)
         \<and> match_alternative PLACE_SUFFIXES (drop 2 s) \<noteq> None
      then map_option (\<lambda>k. 2 + k) (match_alternative PLACE_SUFFIXES (drop 2 s))
      else if 1 \<le> length s \<and> is_han (s ! 0)
      then map_option (\<lambda>k. 1 + k) (match_alternative PLACE_SUFFIXES (drop 1 s))
      else None)"

text \<open>\<open>pattern.findall(text)\<close>: the matches from left to right, none overlapping the
  one before; after a match the scan goes on behind it, otherwise one character on.
  A match of length zero cannot arise from this pattern; the model moves one character
  on for it as well.\<close>

function findall_pattern :: "ustr \<Rightarrow> ustr list" where
  "findall_pattern [] = []"
| "findall_pattern (c # s) =
     (case match_candidate (c # s) of
        None \<Rightarrow> findall_pattern s
      | Some n \<Rightarrow> take n (c # s) # findall_pattern (drop (max 1 n) (c # s)))"
  by pat_completeness auto
termination
  by (relation "measure length") auto

text \<open>The record is changed in place and handed back; the model returns the changed
  record.\<close>

definition validate_and_resolve :: "PlaceNameRecord \<Rightarrow> PlaceNameRecord option" where
  "validate_and_resolve record =
     (let original = placename record;
          candidates = findall_pattern (text' record);
          valid_candidates = filter is_valid_placename candidates;
          record1 = (case valid_candidates of
                       [] \<Rightarrow> record
                     | first # _ \<Rightarrow>
                         if original \<notin> set valid_candidates \<or> \<not> is_valid_placename original
                         then record\<lparr>placename := first\<rparr> else record)
      in if \<not> is_valid_placename (placename record1) then None else Some record1)"

section \<open>extract_from_directory\<close>

text \<open>
  The directory is given as the files in the order the loop visits them, each a name
  and its lines as the file iterator yields them. \<open>aggregated_data\<close> is a dictionary
  from (name, file) to a list of strings; its insertion order decides the order of the
  records, so it is an association list that grows at the end. Indexing it with a key
  it does not hold raises \<open>KeyError\<close>.
\<close>

datatype error = KeyError

type_synonym bucket_key = "ustr \<times> ustr"
type_synonym buckets = "(bucket_key \<times> ustr list) list"
type_synonym document = "ustr \<times> ustr list"

definition has_key :: "bucket_key \<Rightarrow> buckets \<Rightarrow> bool" where
  "has_key k agg \<longleftrightarrow> k \<in> set (map fst agg)"

fun append_to :: "bucket_key \<Rightarrow> ustr \<Rightarrow> buckets \<Rightarrow> buckets" where
  "append_to k v [] = []"
| "append_to k v ((k', texts) # agg) =
     (if k' = k then (k', texts @ [v]) # agg else (k', texts) # append_to k v agg)"

definition get_bucket :: "buckets \<Rightarrow> bucket_key \<Rightarrow> ustr list" where
  "get_bucket agg k = (case map_of agg k of None \<Rightarrow> [] | Some texts \<Rightarrow> texts)"

text \<open>The \<open>elif last_place:\<close> branch; \<open>None\<close> and the empty string are both false.\<close>

definition attach_line :: "ustr \<Rightarrow> buckets \<Rightarrow> ustr option \<Rightarrow> ustr \<Rightarrow> error + buckets \<times> ustr option" where
  "attach_line fname agg last_place line =
     (case last_place of
        None \<Rightarrow> Inr (agg, last_place)
      | Some lp \<Rightarrow>
          if lp = [] then Inr (agg, last_place)
          else if has_key (lp, fname) agg then Inr (append_to (lp, fname) line agg, last_place)
          else Inl KeyError)"

text \<open>The \<open>if p_name:\<close> branch: first the text after the name, then the bucket.\<close>

definition residual_content :: "ustr \<Rightarrow> ustr \<Rightarrow> ustr" where
  "residual_content line p_name =
     (let content_start_idx = py_find line p_name + int (length p_name)
      in lstrip strip_chars (slice_from line content_start_idx))"

definition open_place :: "ustr \<Rightarrow> buckets \<Rightarrow> ustr \<Rightarrow> ustr \<Rightarrow> buckets \<times> ustr option" where
  "open_place fname agg p_name line =
     (let content = residual_content line p_name;
          key = (p_name, fname);
          agg1 = (if \<not> has_key key agg then agg @ [(key, [])] else agg);
          agg2 = (if content \<noteq> [] then append_to key content agg1 else agg1)
      in (agg2, Some p_name))"

text \<open>The body of the loop over the lines of one file.\<close>

definition process_line :: "ustr \<Rightarrow> buckets \<times> ustr option \<Rightarrow> ustr \<Rightarrow> error + buckets \<times> ustr option" where
  "process_line fname st raw =
     (let agg = fst st; last_place = snd st; line = strip raw
      in if line = [] then Inr st
         else (case extract_valid_placename line of
                 None \<Rightarrow> attach_line fname agg last_place line
               | Some p_name \<Rightarrow>
                   if p_name \<noteq> [] then Inr (open_place fname agg p_name line)
                   else attach_line fname agg last_place line))"

fun process_lines :: "ustr \<Rightarrow> buckets \<times> ustr option \<Rightarrow> ustr list \<Rightarrow> error + buckets \<times> ustr option" where
  "process_lines fname st [] = Inr st"
| "process_lines fname st (raw # rest) =
     (case process_line fname st raw of
        Inl e \<Rightarrow> Inl e
      | Inr st' \<Rightarrow> process_lines fname st' rest)"

text \<open>The loop over the files: \<open>last_place\<close> starts at \<open>None\<close> in each.\<close>

fun process_files :: "buckets \<Rightarrow> document list \<Rightarrow> error + buckets" where
  "process_files agg [] = Inr agg"
| "process_files agg ((fname, lines) # rest) =
     (case process_lines fname (agg, None) lines of
        Inl e \<Rightarrow> Inl e
      | Inr st \<Rightarrow> process_files (fst st) rest)"

definition aggregate :: "document list \<Rightarrow> error + buckets" where
  "aggregate files = process_files [] files"

text \<open>The conversion of the buckets into records: the distinct texts joined by one
  space, and only the buckets whose joined text is not empty.\<close>

definition combined_text :: "ustr list \<Rightarrow> ustr" where
  "combined_text texts = join [0x20] (fromkeys texts)"

fun to_records :: "buckets \<Rightarrow> PlaceNameRecord list" where
  "to_records [] = []"
| "to_records (((name, src), texts) # agg) =
     (if combined_text texts \<noteq> []
      then \<lparr>placename = name, text' = combined_text texts, source = src\<rparr> # to_records agg
      else to_records agg)"

definition extract_from_directory :: "document list \<Rightarrow> error + PlaceNameRecord list" where
  "extract_from_directory files =
     (case aggregate files of Inl e \<Rightarrow> Inl e | Inr agg \<Rightarrow> Inr (to_records agg))"

section \<open>Example inputs\<close>

text \<open>The line of Scenario A, and a line with eleven dynasty tokens before a name.\<close>

definition scenario_A :: ustr where
  "scenario_A = [0x6F22, 0x7F6E, 0x6C5F, 0x9675, 0x7E23, 0x5C6C, 0x5357, 0x90E1]"

definition capped_line :: ustr where
  "capped_line = [0x6F22, 0x6F22, 0x6F22, 0x6F22, 0x6F22, 0x6F22, 0x6F22, 0x6F22, 0x6F22,
     0x6F22, 0x6F22, 0x6C5F, 0x9675, 0x7E23]"

section \<open>Re-resolution as the specification words it\<close>

text \<open>
  The shape of a match of the pattern: one or two characters of the range, followed by
  a known suffix token and nothing else.
\<close>

definition name_pattern :: "ustr \<Rightarrow> bool" where
  "name_pattern m =
     list_ex (\<lambda>sfx. list_ex (\<lambda>j. j \<le> length m \<and> list_all is_han (take j m) \<and> drop j m = sfx)
        [1, 2]) PLACE_SUFFIXES"

text \<open>The substrings that start at the head of a string and have that shape, the
  longer before the shorter; and all substrings of a text that have it, by the place
  where they start, from left to right.\<close>

definition matches_at :: "ustr \<Rightarrow> ustr list" where
  "matches_at s = filter name_pattern (rev (prefixes s))"

fun all_matches :: "ustr \<Rightarrow> ustr list" where
  "all_matches [] = []"
| "all_matches (c # s) = matches_at (c # s) @ all_matches s"

text \<open>
  Re-resolution in the words of the specification, section 4.4: all substrings of the
  text that match the pattern are filtered through the validator; if the filtered
  candidates are not empty and the original name is absent from them or invalid, the
  name becomes the left-most validated candidate; a record whose final name is invalid
  is discarded.
\<close>

definition resolve_spec :: "PlaceNameRecord \<Rightarrow> PlaceNameRecord option" where
  "resolve_spec r =
     (let validated = filter is_valid_placename (all_matches (text' r));
          final = (if validated \<noteq> [] \<and>
                      (placename r \<notin> set validated \<or> \<not> is_valid_placename (placename r))
                   then hd validated else placename r)
      in if is_valid_placename final then Some (r\<lparr>placename := final\<rparr>) else None)"

text \<open>
  The matches of a scan from left to right without overlap: where the pattern matches,
  the longest match there is taken and the scan goes on behind it; elsewhere it moves one
  character on. The first argument counts the characters that the last match still
  covers. Re-resolution over these matches only is \<open>resolve_scan\<close>.
\<close>

fun scan_matches :: "nat \<Rightarrow> ustr \<Rightarrow> ustr list" where
  "scan_matches k [] = []"
| "scan_matches (Suc k) (c # s) = scan_matches k s"
| "scan_matches 0 (c # s) =
     (case matches_at (c # s) of
        [] \<Rightarrow> scan_matches 0 s
      | m # _ \<Rightarrow> m # scan_matches (length m - 1) s)"

definition resolve_scan :: "PlaceNameRecord \<Rightarrow> PlaceNameRecord option" where
  "resolve_scan r =
     (let validated = filter is_valid_placename (scan_matches 0 (text' r));
          final = (if validated \<noteq> [] \<and>
                      (placename r \<notin> set validated \<or> \<not> is_valid_placename (placename r))
                   then hd validated else placename r)
      in if is_valid_placename final then Some (r\<lparr>placename := final\<rparr>) else None)"

text \<open>Gaps and matches laid out in turn: a gap, a match, a gap, and so on.\<close>

fun weave :: "ustr list \<Rightarrow> ustr list \<Rightarrow> ustr" where
  "weave (g # gs) (m # ms) = g @ m @ weave gs ms"
| "weave gs [] = concat gs"
| "weave [] ms = concat ms"

text \<open>A record whose text holds another valid name, and what re-resolution makes of
  it. A record in whose text a valid name overlaps an invalid match that starts before
  it: the name the code gives it, and the name the left-most validated substring gives.\<close>

definition record_A :: PlaceNameRecord where
  "record_A = \<lparr>placename = [0x6C5F, 0x9675, 0x7E23], text' = [0x5C6C, 0x5357, 0x90E1],
     source = [0x31, 0x2E, 0x74, 0x78, 0x74]\<rparr>"

definition record_A_resolved :: PlaceNameRecord where
  "record_A_resolved = \<lparr>placename = [0x5C6C, 0x5357, 0x90E1], text' = [0x5C6C, 0x5357, 0x90E1],
     source = [0x31, 0x2E, 0x74, 0x78, 0x74]\<rparr>"

definition record_B :: PlaceNameRecord where
  "record_B = \<lparr>placename = [0x6C5F, 0x9675, 0x7E23],
     text' = [0x4E4B, 0x7532, 0x5C71, 0x7E23, 0x4E59, 0x57CE],
     source = [0x31, 0x2E, 0x74, 0x78, 0x74]\<rparr>"

definition record_B_scanned :: PlaceNameRecord where
  "record_B_scanned = \<lparr>placename = [0x7E23, 0x4E59, 0x57CE],
     text' = [0x4E4B, 0x7532, 0x5C71, 0x7E23, 0x4E59, 0x57CE],
     source = [0x31, 0x2E, 0x74, 0x78, 0x74]\<rparr>"

definition record_B_leftmost :: PlaceNameRecord where
  "record_B_leftmost = \<lparr>placename = [0x7532, 0x5C71, 0x7E23],
     text' = [0x4E4B, 0x7532, 0x5C71, 0x7E23, 0x4E59, 0x57CE],
     source = [0x31, 0x2E, 0x74, 0x78, 0x74]\<rparr>"

section \<open>The pipeline as the specification words it\<close>

text \<open>
  Section 4.3 of the specification: after the pass, re-resolution runs on every
  non-empty bucket, and a record is emitted if it yields a valid name.
\<close>

definition resolved_pipeline :: "document list \<Rightarrow> error + PlaceNameRecord list" where
  "resolved_pipeline files =
     (case aggregate files of
        Inl e \<Rightarrow> Inl e
      | Inr agg \<Rightarrow> Inr (List.map_filter validate_and_resolve (to_records agg)))"

section \<open>Invariants of the aggregation\<close>

text \<open>
  What holds of a string stored in a bucket: it is not empty, it does not start with a
  space, and if it starts with one of the stripped characters then no name is detected
  on it, which is the case of a continuation line.
\<close>

definition stored_ok :: "ustr \<Rightarrow> bool" where
  "stored_ok t \<longleftrightarrow>
     t \<noteq> [] \<and> hd t \<noteq> 0x20 \<and> (hd t \<in> set strip_chars \<longrightarrow> extract_valid_placename t = None)"

text \<open>A bucket is in order when its name is valid and its strings are; the dictionary
  when its keys are distinct and its buckets in order; the state of the loop over the
  lines of a file when, in addition, the open name has a bucket under that file.\<close>

definition bucket_ok :: "bucket_key \<times> ustr list \<Rightarrow> bool" where
  "bucket_ok b \<longleftrightarrow> is_valid_placename (fst (fst b)) \<and> list_all stored_ok (snd b)"

definition buckets_inv :: "buckets \<Rightarrow> bool" where
  "buckets_inv agg \<longleftrightarrow> distinct (map fst agg) \<and> list_all bucket_ok agg"

definition state_inv :: "ustr \<Rightarrow> buckets \<times> ustr option \<Rightarrow> bool" where
  "state_inv fname st \<longleftrightarrow>
     buckets_inv (fst st) \<and>
     (case snd st of None \<Rightarrow> True | Some lp \<Rightarrow> lp \<noteq> [] \<and> has_key (lp, fname) (fst st))"

section \<open>The aggregation as a sequence of attributions\<close>

text \<open>
  Section 4.3 of the specification read as a list: one pass over the lines of a
  document with the currently open name. A line with a candidate attributes the text
  after the name to that name and opens it; a line without one is attributed whole to
  the open name, or dropped when no name is open. The bucket of a key is then the
  non-empty texts attributed to it, in the order of the lines, and the keys are taken in
  the order of their first attribution.
\<close>

fun line_events :: "ustr \<Rightarrow> ustr option \<Rightarrow> ustr list \<Rightarrow> (bucket_key \<times> ustr) list" where
  "line_events source_id current_name [] = []"
| "line_events source_id current_name (raw # rest) =
     (let line = strip raw
      in if line = [] then line_events source_id current_name rest
         else (case extract_valid_placename line of
                 Some name \<Rightarrow>
                   ((name, source_id), residual_content line name)
                     # line_events source_id (Some name) rest
               | None \<Rightarrow>
                   (case current_name of
                      None \<Rightarrow> line_events source_id None rest
                    | Some cur \<Rightarrow>
                        ((cur, source_id), line) # line_events source_id current_name rest)))"

fun attributions :: "document list \<Rightarrow> (bucket_key \<times> ustr) list" where
  "attributions [] = []"
| "attributions ((fname, lines) # rest) = line_events fname None lines @ attributions rest"

definition texts_of :: "bucket_key \<Rightarrow> (bucket_key \<times> ustr) list \<Rightarrow> ustr list" where
  "texts_of k evs = filter (\<lambda>t. t \<noteq> []) (map snd (filter (\<lambda>e. fst e = k) evs))"

definition keys_of :: "(bucket_key \<times> ustr) list \<Rightarrow> bucket_key list" where
  "keys_of evs = rev (remdups (rev (map fst evs)))"

text \<open>A dictionary holds a list of attributions when its keys are theirs, in the
  order of first attribution, and each bucket the texts of its key.\<close>

definition represents :: "buckets \<Rightarrow> (bucket_key \<times> ustr) list \<Rightarrow> bool" where
  "represents agg evs \<longleftrightarrow>
     map fst agg = keys_of evs \<and> (\<forall>k. get_bucket agg k = texts_of k evs)"

section \<open>Example directories\<close>

text \<open>One file \<open>1.txt\<close>: with the line of Scenario A; with a name and a line that
  starts with a comma; with a name found twice, each time followed by the same text and
  by a continuation line.\<close>

definition file_1 :: ustr where
  "file_1 = [0x31, 0x2E, 0x74, 0x78, 0x74]"

definition docs_A :: "document list" where
  "docs_A = [(file_1, [[0x6F22, 0x7F6E, 0x6C5F, 0x9675, 0x7E23, 0x5C6C, 0x5357, 0x90E1, 0x0A]])]"

definition docs_B :: "document list" where
  "docs_B = [(file_1, [[0x6C5F, 0x9675, 0x7E23, 0x0A], [0xFF0C, 0x4E5F, 0x0A]])]"

definition docs_C :: "document list" where
  "docs_C = [(file_1,
     [[0x6C5F, 0x9675, 0x7E23, 0xFF0C, 0x6F22, 0x7F6E, 0x0A],
      [0x4E5F, 0x0A],
      [0x6C5F, 0x9675, 0x7E23, 0x3002, 0x6F22, 0x7F6E, 0x0A],
      [0x6D41, 0x0A]])]"

section \<open>Strings: prefixes, suffixes and searches\<close>

lemma startswith_prefix: "startswith s p \<longleftrightarrow> prefix p s"
proof
  assume "startswith s p"
  then have "take (length p) s = p" by (simp add: startswith_def)
  with take_is_prefix [of "length p" s] show "prefix p s" by simp
next
  assume "prefix p s"
  then obtain zs where "s = p @ zs" by (auto simp: prefix_def)
  then show "startswith s p" by (simp add: startswith_def)
qed

lemma suffix_lstrip: "suffix (lstrip cs s) s"
  unfolding lstrip_def by (rule suffix_dropWhile)

lemma suffix_strip_token: "suffix (strip_token tok s) s"
  unfolding strip_token_def
  by (auto intro: suffix_order.trans [OF suffix_lstrip suffix_drop])

lemma suffix_strip_admin: "suffix (strip_admin a s) s"
  unfolding strip_admin_def
  by (auto split: option.splits intro: suffix_order.trans [OF suffix_lstrip suffix_drop])

lemma suffix_fold:
  assumes "\<And>x l. suffix (f x l) l"
  shows "suffix (fold f xs s) s"
proof (induction xs arbitrary: s)
  case Nil
  show ?case by simp
next
  case (Cons x xs)
  have "suffix (fold f xs (f x s)) (f x s)" by (rule Cons.IH)
  also have "suffix (f x s) s" by (rule assms)
  finally show ?case by simp
qed

lemma suffix_rewrite_pass: "suffix (rewrite_pass s) s"
proof -
  let ?a = "fold strip_token DYNASTIES s"
  let ?b = "fold strip_admin ADMIN_LEVELS ?a"
  have "suffix ?a s" by (rule suffix_fold [OF suffix_strip_token])
  moreover have "suffix ?b ?a" by (rule suffix_fold [OF suffix_strip_admin])
  moreover have "suffix (fold strip_token PREFIX_VERBS ?b) ?b"
    by (rule suffix_fold [OF suffix_strip_token])
  ultimately have "suffix (fold strip_token PREFIX_VERBS ?b) s"
    using suffix_order.trans by blast
  then show ?thesis by (simp only: rewrite_pass_def)
qed

lemma suffix_clean_loop: "suffix (fst (clean_loop i s)) s"
proof (induction i s rule: clean_loop.induct)
  case (1 iteration line)
  show ?case
  proof (cases "iteration < max_iterations \<and> line \<noteq> rewrite_pass line")
    case True
    then have "suffix (fst (clean_loop (iteration + 1) (rewrite_pass line))) (rewrite_pass line)"
      using "1.IH" by simp
    then have "suffix (fst (clean_loop (iteration + 1) (rewrite_pass line))) line"
      by (rule suffix_order.trans [OF _ suffix_rewrite_pass])
    with True show ?thesis by (subst clean_loop.simps) (simp add: Let_def)
  next
    case False
    then show ?thesis by (subst clean_loop.simps) (auto simp: Let_def)
  qed
qed

lemma suffix_clean_line_start:
  "suffix (clean_line_start s) (strip (strip_leading_number s))"
  unfolding clean_line_start_def by (rule suffix_clean_loop)

lemma strip_leading_number_cases:
  "strip_leading_number s = s \<or>
   strip_leading_number s = dropWhile is_space (dropWhile is_decimal s)"
  by (cases s) (auto simp: strip_leading_number_def)

lemma suffix_strip_leading_number: "suffix (strip_leading_number s) s"
  using strip_leading_number_cases [of s]
    suffix_order.trans [OF suffix_dropWhile suffix_dropWhile, of is_space is_decimal s]
  by auto

lemma sublist_strip: "sublist (strip s) s"
proof -
  have "prefix (strip s) (dropWhile is_space s)"
    unfolding strip_def using suffix_dropWhile [of is_space "rev (dropWhile is_space s)"]
    by (simp add: suffix_to_prefix)
  then have "sublist (strip s) (dropWhile is_space s)" by (rule prefix_imp_sublist)
  moreover have "sublist (dropWhile is_space s) s"
    by (rule suffix_imp_sublist [OF suffix_dropWhile])
  ultimately show ?thesis by (rule sublist_order.order.trans)
qed

lemma sublist_clean_line_start: "sublist (clean_line_start s) s"
proof -
  have "sublist (clean_line_start s) (strip (strip_leading_number s))"
    by (rule suffix_imp_sublist [OF suffix_clean_line_start])
  moreover have "sublist (strip (strip_leading_number s)) (strip_leading_number s)"
    by (rule sublist_strip)
  moreover have "sublist (strip_leading_number s) s"
    by (rule suffix_imp_sublist [OF suffix_strip_leading_number])
  ultimately show ?thesis by (blast intro: sublist_order.order.trans)
qed

lemma find_str_Some:
  "find_str s p = Some i \<Longrightarrow> i + length p \<le> length s \<and> take (length p) (drop i s) = p"
proof (induction s arbitrary: i)
  case Nil
  then show ?case by (simp split: if_splits)
next
  case (Cons c s)
  show ?case
  proof (cases "startswith (c # s) p")
    case True
    with Cons.prems have "i = 0" by simp
    moreover from True have "take (length p) (c # s) = p" by (simp add: startswith_def)
    moreover from this have "length (take (length p) (c # s)) = length p"
      by (simp only:)
    then have "length p \<le> length (c # s)" by simp
    ultimately show ?thesis by simp
  next
    case False
    with Cons.prems obtain j where j: "find_str s p = Some j" "i = Suc j" by auto
    from Cons.IH [OF j(1)] j(2) show ?thesis by simp
  qed
qed

lemma find_str_None: "find_str s p = None \<Longrightarrow> \<not> sublist p s"
proof (induction s)
  case Nil
  then show ?case by (simp split: if_splits)
next
  case (Cons c s)
  then have "\<not> prefix p (c # s)" "\<not> sublist p s"
    by (auto simp: startswith_prefix split: if_splits)
  then show ?case by (simp add: sublist_Cons_right)
qed

lemma find_str_sublist: "sublist p s \<Longrightarrow> \<exists>i. find_str s p = Some i"
  using find_str_None by (cases "find_str s p") auto

lemma dropWhile_suffix_mono:
  assumes "suffix t s"
  shows "suffix (dropWhile P t) (dropWhile P s)"
proof -
  from assms obtain zs where s: "s = zs @ t" by (auto simp: suffix_def)
  show ?thesis
  proof (cases "\<forall>x\<in>set zs. P x")
    case True
    with s show ?thesis by (simp add: dropWhile_append)
  next
    case False
    then have "dropWhile P s = dropWhile P zs @ t"
      using s by (auto simp: dropWhile_append)
    moreover have "suffix (dropWhile P t) t" by (rule suffix_dropWhile)
    ultimately show ?thesis by (simp add: suffix_append)
  qed
qed

lemma rstrip_suffix_mono:
  assumes "suffix a b"
  shows "sublist (rev (dropWhile P (rev a))) (rev (dropWhile P (rev b)))"
proof -
  from assms obtain zs where b: "b = zs @ a" by (auto simp: suffix_def)
  show ?thesis
  proof (cases "\<forall>x\<in>set a. P x")
    case True
    then have "rev (dropWhile P (rev a)) = []" by simp
    then show ?thesis by (simp only: sublist_Nil_left)
  next
    case False
    then have "rev (dropWhile P (rev b)) = zs @ rev (dropWhile P (rev a))"
      using b by (auto simp: dropWhile_append)
    then show ?thesis by simp
  qed
qed

lemma sublist_strip_mono: "suffix t s \<Longrightarrow> sublist (strip t) (strip s)"
  unfolding strip_def by (rule rstrip_suffix_mono [OF dropWhile_suffix_mono])

section \<open>The candidate locator\<close>

lemma startswith_Nil [simp]: "startswith s [] = True"
  by (simp add: startswith_def)
lemma startswith_Nil_Cons [simp]: "startswith [] (p # ps) = False"
  by (simp add: startswith_def)
lemma startswith_Cons_Cons [simp]: "startswith (c # s) (p # ps) = (c = p \<and> startswith s ps)"
  by (auto simp: startswith_def)

lemma PLACE_SUFFIXES_length: "sfx \<in> set PLACE_SUFFIXES \<Longrightarrow> length sfx = 1"
  by (auto simp: PLACE_SUFFIXES_def)

lemma scan_suffixes_Some:
  "scan_suffixes sufs cl = Some p \<Longrightarrow>
   \<exists>sfx idx. sfx \<in> set sufs \<and> find_str cl sfx = Some idx \<and> p = take (idx + 1) cl \<and>
     2 \<le> length p \<and> length p \<le> 3 \<and> \<not> list_ex (startswith p) STOP_START_WORDS \<and>
     (drop (idx + 1) cl = [] \<or> match_separator (drop (idx + 1) cl) \<or>
      \<not> list_ex (startswith (drop (idx + 1) cl)) direction_words)"
proof (induction sufs)
  case Nil
  then show ?case by simp
next
  case (Cons sfx rest)
  show ?case
  proof (cases "scan_suffixes rest cl = Some p")
    case True
    from Cons.IH [OF True] show ?thesis by auto
  next
    case False
    with Cons.prems obtain idx where idx: "find_str cl sfx = Some idx"
      by (cases "find_str cl sfx") auto
    with Cons.prems False show ?thesis
      by (auto simp: Let_def split: if_splits)
  qed
qed


lemma direction_not_separator:
  "match_separator s \<Longrightarrow> \<not> list_ex (startswith s) direction_words"
  by (cases s) (auto simp: match_separator_def direction_words_def is_space_def)

lemma extract_valid_placename_Some:
  assumes "extract_valid_placename line = Some p"
  shows "\<exists>sfx idx. sfx \<in> set PLACE_SUFFIXES \<and> find_str (clean_line_start line) sfx = Some idx \<and>
     p = take (idx + 1) (clean_line_start line) \<and> length p = idx + 1 \<and>
     2 \<le> length p \<and> length p \<le> 3 \<and> \<not> list_ex (startswith p) STOP_START_WORDS \<and>
     take 1 (drop idx (clean_line_start line)) = sfx \<and>
     \<not> list_ex (startswith (drop (idx + 1) (clean_line_start line))) direction_words"
proof -
  let ?cl = "clean_line_start line"
  from assms have "scan_suffixes PLACE_SUFFIXES ?cl = Some p"
    by (simp add: extract_valid_placename_def Let_def split: if_splits)
  from scan_suffixes_Some [OF this] obtain sfx idx where
    h: "sfx \<in> set PLACE_SUFFIXES" "find_str ?cl sfx = Some idx" "p = take (idx + 1) ?cl"
       "2 \<le> length p" "length p \<le> 3" "\<not> list_ex (startswith p) STOP_START_WORDS"
       "drop (idx + 1) ?cl = [] \<or> match_separator (drop (idx + 1) ?cl) \<or>
        \<not> list_ex (startswith (drop (idx + 1) ?cl)) direction_words"
    by blast
  have len: "length sfx = 1" by (rule PLACE_SUFFIXES_length [OF h(1)])
  from find_str_Some [OF h(2)] len
  have f: "idx + 1 \<le> length ?cl" "take 1 (drop idx ?cl) = sfx" by simp_all
  from h(3) f(1) have lp: "length p = idx + 1" by simp
  have "\<not> list_ex (startswith (drop (idx + 1) ?cl)) direction_words"
    using h(7) direction_not_separator by (auto simp: direction_words_def)
  with h f lp show ?thesis by blast
qed

lemma extract_valid_placename_prefix:
  "extract_valid_placename line = Some p \<Longrightarrow> prefix p (clean_line_start line)"
  using extract_valid_placename_Some [of line p] by (auto simp: take_is_prefix)

lemma extract_valid_placename_valid:
  assumes "extract_valid_placename line = Some p"
  shows "is_valid_placename p"
proof -
  let ?cl = "clean_line_start line"
  from extract_valid_placename_Some [OF assms] obtain sfx idx where
    h: "sfx \<in> set PLACE_SUFFIXES" "p = take (idx + 1) ?cl" "length p = idx + 1"
       "2 \<le> length p" "length p \<le> 3" "\<not> list_ex (startswith p) STOP_START_WORDS"
       "take 1 (drop idx ?cl) = sfx"
    by blast
  have "length sfx = 1" by (rule PLACE_SUFFIXES_length [OF h(1)])
  moreover have "drop idx p = sfx"
    using h(2) h(7) by (simp add: drop_take)
  ultimately have "endswith p sfx"
    using h(3) by (simp add: endswith_def)
  with h(1) have "list_ex (endswith p) PLACE_SUFFIXES"
    by (auto simp: list_ex_iff)
  with h(4,5,6) show ?thesis by (simp add: is_valid_placename_def)
qed

lemma clean_loop_iterations:
  "iteration \<le> max_iterations \<Longrightarrow>
   \<exists>n. iteration + n \<le> max_iterations \<and>
       clean_loop iteration line = ((rewrite_pass ^^ n) line, iteration + n) \<and>
       (iteration + n < max_iterations \<longrightarrow>
          rewrite_pass ((rewrite_pass ^^ n) line) = (rewrite_pass ^^ n) line)"
proof (induction iteration line rule: clean_loop.induct)
  case (1 iteration line)
  show ?case
  proof (cases "iteration < max_iterations \<and> line \<noteq> rewrite_pass line")
    case True
    then have "iteration + 1 \<le> max_iterations" by simp
    from "1.IH" [OF _ refl _ this] True obtain n where
      n: "iteration + 1 + n \<le> max_iterations"
         "clean_loop (iteration + 1) (rewrite_pass line) =
            ((rewrite_pass ^^ n) (rewrite_pass line), iteration + 1 + n)"
         "iteration + 1 + n < max_iterations \<longrightarrow>
            rewrite_pass ((rewrite_pass ^^ n) (rewrite_pass line)) =
            (rewrite_pass ^^ n) (rewrite_pass line)"
      by auto
    have sw: "(rewrite_pass ^^ n) (rewrite_pass line) = (rewrite_pass ^^ Suc n) line"
      by (simp add: funpow_swap1)
    have "clean_loop iteration line = clean_loop (iteration + 1) (rewrite_pass line)"
      using True by (subst clean_loop.simps) (simp add: Let_def)
    with n sw have
      "iteration + Suc n \<le> max_iterations \<and>
       clean_loop iteration line = ((rewrite_pass ^^ Suc n) line, iteration + Suc n) \<and>
       (iteration + Suc n < max_iterations \<longrightarrow>
          rewrite_pass ((rewrite_pass ^^ Suc n) line) = (rewrite_pass ^^ Suc n) line)"
      by (simp del: funpow.simps)
    then show ?thesis by blast
  next
    case False
    have "clean_loop iteration line = (line, iteration)"
      using False by (subst clean_loop.simps) (auto simp: Let_def)
    with False "1.prems" have
      "iteration + 0 \<le> max_iterations \<and>
       clean_loop iteration line = ((rewrite_pass ^^ 0) line, iteration + 0) \<and>
       (iteration + 0 < max_iterations \<longrightarrow>
          rewrite_pass ((rewrite_pass ^^ 0) line) = (rewrite_pass ^^ 0) line)"
      by auto
    then show ?thesis by blast
  qed
qed

section \<open>Evaluation of the example lines\<close>

lemmas eval_defs = strip_def lstrip_def strip_chars_def is_space_def is_han_def
  strip_leading_number_def strip_token_def match_admin_def strip_admin_def rewrite_pass_def
  DYNASTIES_def ADMIN_LEVELS_def PREFIX_VERBS_def STOP_START_WORDS_def PLACE_SUFFIXES_def
  direction_words_def max_iterations_def match_separator_def is_decimal_def decimal_zeros_def

lemma scenario_A_dynasty:
  "fold strip_token DYNASTIES scenario_A = [0x7F6E, 0x6C5F, 0x9675, 0x7E23, 0x5C6C, 0x5357, 0x90E1]"
  by (simp add: scenario_A_def eval_defs)

lemma scenario_A_pass:
  "rewrite_pass scenario_A = [0x6C5F, 0x9675, 0x7E23, 0x5C6C, 0x5357, 0x90E1]"
  by (simp add: scenario_A_def eval_defs)

lemma scenario_A_loop:
  "clean_loop 0 (strip (strip_leading_number scenario_A)) =
     ([0x6C5F, 0x9675, 0x7E23, 0x5C6C, 0x5357, 0x90E1], 1)"
  by (simp add: clean_loop.simps scenario_A_def eval_defs)

lemma scenario_A_clean:
  "clean_line_start scenario_A = [0x6C5F, 0x9675, 0x7E23, 0x5C6C, 0x5357, 0x90E1]"
  by (simp add: clean_line_start_def scenario_A_loop)

lemma scenario_A_find: "find_str (clean_line_start scenario_A) [0x7E23] = Some 2"
  by (simp add: scenario_A_clean eval_defs)

lemma scenario_A_extract:
  "extract_valid_placename scenario_A = Some [0x6C5F, 0x9675, 0x7E23]"
  by (simp add: extract_valid_placename_def scenario_A_clean eval_defs)

lemma capped_line_loop:
  "clean_loop 0 (strip (strip_leading_number capped_line)) =
     ([0x6F22, 0x6C5F, 0x9675, 0x7E23], 10)"
  by (simp add: clean_loop.simps capped_line_def eval_defs)

section \<open>Claims about normalisation and candidate location\<close>

text \<open>
  C7. On the line of Scenario A the loop over the dynasties removes the dynasty token,
  the whole pass then also removes the verb prefix, and \<open>clean_line_start\<close> returns the
  six characters that remain. In that result the first suffix of the list stands at
  index 2, and \<open>extract_valid_placename\<close> returns the three characters up to it: the
  candidate has length 3, starts with no stop word, and the character after it is not
  one of the direction words.
\<close>

theorem scenario_A_accepted:
  "fold strip_token DYNASTIES scenario_A = [0x7F6E, 0x6C5F, 0x9675, 0x7E23, 0x5C6C, 0x5357, 0x90E1] \<and>
   rewrite_pass scenario_A = [0x6C5F, 0x9675, 0x7E23, 0x5C6C, 0x5357, 0x90E1] \<and>
   clean_line_start scenario_A = [0x6C5F, 0x9675, 0x7E23, 0x5C6C, 0x5357, 0x90E1] \<and>
   find_str (clean_line_start scenario_A) [0x7E23] = Some 2 \<and>
   extract_valid_placename scenario_A = Some [0x6C5F, 0x9675, 0x7E23] \<and>
   length [0x6C5F, 0x9675, 0x7E23 :: uchar] = 3 \<and>
   list_ex (startswith [0x6C5F, 0x9675, 0x7E23]) STOP_START_WORDS = False \<and>
   list_ex (startswith [0x5C6C, 0x5357, 0x90E1]) direction_words = False"
  using scenario_A_dynasty scenario_A_pass scenario_A_clean scenario_A_find scenario_A_extract
  by (simp add: STOP_START_WORDS_def direction_words_def)

theorem scenario_A_accepted_witness:
  "extract_valid_placename scenario_A = Some (take 3 (clean_line_start scenario_A))"
  using scenario_A_accepted by simp

text \<open>
  C8. A candidate returned by \<open>extract_valid_placename\<close> has two or three characters,
  starts with no stop word, and is the head of the normalised line; what follows it in
  the normalised line is empty, or starts with a separator, or does not start with a
  direction word. In no case does it start with a direction word.
\<close>

theorem locator_acceptance_rules:
  assumes "extract_valid_placename line = Some c"
  shows "(length c = 2 \<or> length c = 3) \<and>
         list_ex (startswith c) STOP_START_WORDS = False \<and>
         prefix c (clean_line_start line) \<and>
         (drop (length c) (clean_line_start line) = [] \<or>
          match_separator (drop (length c) (clean_line_start line)) \<or>
          list_ex (startswith (drop (length c) (clean_line_start line))) direction_words = False) \<and>
         list_ex (startswith (drop (length c) (clean_line_start line))) direction_words = False"
proof -
  from extract_valid_placename_Some [OF assms] obtain sfx idx where
    h: "c = take (idx + 1) (clean_line_start line)" "length c = idx + 1"
       "2 \<le> length c" "length c \<le> 3" "\<not> list_ex (startswith c) STOP_START_WORDS"
       "\<not> list_ex (startswith (drop (idx + 1) (clean_line_start line))) direction_words"
    by blast
  from h(3,4) have "length c = 2 \<or> length c = 3" by arith
  moreover from h(1) have "prefix c (clean_line_start line)" by (simp add: take_is_prefix)
  moreover from h(2,6)
  have "list_ex (startswith (drop (length c) (clean_line_start line))) direction_words = False"
    by simp
  ultimately show ?thesis using h(5) by simp
qed

theorem locator_acceptance_rules_witness:
  "extract_valid_placename scenario_A = Some [0x6C5F, 0x9675, 0x7E23] \<and>
   prefix [0x6C5F, 0x9675, 0x7E23] (clean_line_start scenario_A) \<and>
   list_ex (startswith (drop 3 (clean_line_start scenario_A))) direction_words = False"
  using locator_acceptance_rules [OF scenario_A_extract] scenario_A_extract
  by (simp add: scenario_A_clean direction_words_def)

text \<open>
  C9. \<open>clean_line_start\<close> is a total function: the loop is defined with a measure that
  falls in every turn, the distance of the counter from the cap of 10. For every input
  the loop leaves with a counter \<open>n\<close> of at most 10, the result is the input of the
  loop after \<open>n\<close> rewriting passes, and below the cap a further pass changes nothing.
  Entered at the cap, the loop returns the line it has, as an ordinary result.
\<close>

theorem clean_line_start_bounded:
  "\<exists>n. n \<le> max_iterations \<and> max_iterations = 10 \<and>
       clean_loop 0 (strip (strip_leading_number s)) = (clean_line_start s, n) \<and>
       clean_line_start s = (rewrite_pass ^^ n) (strip (strip_leading_number s)) \<and>
       (n < max_iterations \<longrightarrow> rewrite_pass (clean_line_start s) = clean_line_start s) \<and>
       clean_loop max_iterations l = (l, max_iterations)"
proof -
  let ?l0 = "strip (strip_leading_number s)"
  from clean_loop_iterations [of 0 ?l0] obtain n where
    n: "n \<le> max_iterations" "clean_loop 0 ?l0 = ((rewrite_pass ^^ n) ?l0, n)"
       "n < max_iterations \<longrightarrow> rewrite_pass ((rewrite_pass ^^ n) ?l0) = (rewrite_pass ^^ n) ?l0"
    by auto
  from n(2) have c: "clean_line_start s = (rewrite_pass ^^ n) ?l0"
    by (simp add: clean_line_start_def)
  have cap: "clean_loop max_iterations l = (l, max_iterations)"
    by (subst clean_loop.simps) simp
  from n c cap show ?thesis by (auto simp: max_iterations_def)
qed

theorem clean_line_start_bounded_witness:
  "clean_loop 0 (strip (strip_leading_number scenario_A)) = (clean_line_start scenario_A, 1) \<and>
   (1::nat) < max_iterations \<and>
   rewrite_pass (clean_line_start scenario_A) = clean_line_start scenario_A \<and>
   clean_loop 0 (strip (strip_leading_number capped_line)) = (clean_line_start capped_line, 10) \<and>
   clean_line_start capped_line = [0x6F22, 0x6C5F, 0x9675, 0x7E23]"
proof -
  from clean_line_start_bounded [of scenario_A] obtain n where
    n: "clean_loop 0 (strip (strip_leading_number scenario_A)) = (clean_line_start scenario_A, n)"
       "n < max_iterations \<longrightarrow> rewrite_pass (clean_line_start scenario_A) = clean_line_start scenario_A"
    by blast
  from n(1) scenario_A_loop have "n = 1" by simp
  with n show ?thesis
    by (simp add: max_iterations_def clean_line_start_def capped_line_loop)
qed

text \<open>
  C10. The result of \<open>clean_line_start\<close> is a suffix of the line as step 1 leaves it
  (the leading number removed, white space stripped). So a candidate returned for a line
  occurs in that line, also in its stripped form, and the search \<open>line.find(p_name)\<close> of the
  aggregator succeeds: it does not return -1, and the content taken after the name is
  the line from the end of that occurrence on.
\<close>

theorem candidate_occurs_in_line:
  "suffix (clean_line_start s) (strip (strip_leading_number s)) \<and>
   (extract_valid_placename line = Some p \<longrightarrow>
      sublist p line \<and> sublist p (strip line) \<and> py_find line p \<noteq> - 1 \<and>
      (\<exists>i. find_str line p = Some i \<and> py_find line p = int i \<and> i + length p \<le> length line \<and>
           take (length p) (drop i line) = p \<and>
           slice_from line (py_find line p + int (length p)) = drop (i + length p) line))"
proof (intro conjI impI)
  show "suffix (clean_line_start s) (strip (strip_leading_number s))"
    by (rule suffix_clean_line_start)
next
  assume a: "extract_valid_placename line = Some p"
  have 1: "sublist p (clean_line_start line)"
    by (rule prefix_imp_sublist [OF extract_valid_placename_prefix [OF a]])
  have 2: "sublist (clean_line_start line) (strip (strip_leading_number line))"
    by (rule suffix_imp_sublist [OF suffix_clean_line_start])
  have 3: "sublist (strip (strip_leading_number line)) (strip line)"
    by (rule sublist_strip_mono [OF suffix_strip_leading_number])
  from 1 2 3 show s: "sublist p (strip line)"
    by (blast intro: sublist_order.order.trans)
  with sublist_strip [of line] show l: "sublist p line"
    by (blast intro: sublist_order.order.trans)
  from find_str_sublist [OF l] obtain i where i: "find_str line p = Some i" by blast
  then show "py_find line p \<noteq> - 1" by (simp add: py_find_def)
  from find_str_Some [OF i] i
  show "\<exists>i. find_str line p = Some i \<and> py_find line p = int i \<and> i + length p \<le> length line \<and>
           take (length p) (drop i line) = p \<and>
           slice_from line (py_find line p + int (length p)) = drop (i + length p) line"
    by (simp add: py_find_def slice_from_def nat_add_distrib)
qed

theorem candidate_occurs_in_line_witness:
  "extract_valid_placename scenario_A = Some [0x6C5F, 0x9675, 0x7E23] \<and>
   sublist [0x6C5F, 0x9675, 0x7E23] scenario_A \<and>
   py_find scenario_A [0x6C5F, 0x9675, 0x7E23] \<noteq> - 1"
  using candidate_occurs_in_line [of scenario_A scenario_A "[0x6C5F, 0x9675, 0x7E23]"]
    scenario_A_extract by simp

section \<open>Re-resolution\<close>

lemma match_alternative_Some:
  "match_alternative as s = Some k \<Longrightarrow> \<exists>a \<in> set as. k = length a \<and> startswith s a"
  by (induction as) (auto split: if_splits)

lemma match_alternative_None:
  "match_alternative as s = None \<Longrightarrow> a \<in> set as \<Longrightarrow> \<not> startswith s a"
  by (induction as) (auto split: if_splits)

lemma startswith_length: "startswith s p \<Longrightarrow> length p \<le> length s"
  by (metis startswith_prefix prefix_length_le)

lemma name_pattern_iff:
  "name_pattern m \<longleftrightarrow>
   (\<exists>sfx\<in>set PLACE_SUFFIXES. \<exists>j. (j = 1 \<or> j = 2) \<and> j \<le> length m \<and>
      list_all is_han (take j m) \<and> drop j m = sfx)"
  by (auto simp: name_pattern_def list_ex_iff)

lemma name_pattern_length: "name_pattern m \<Longrightarrow> length m = 2 \<or> length m = 3"
proof -
  assume "name_pattern m"
  then obtain sfx j where h: "sfx \<in> set PLACE_SUFFIXES" "j = 1 \<or> j = 2" "j \<le> length m"
    "drop j m = sfx" by (auto simp: name_pattern_iff)
  from PLACE_SUFFIXES_length [OF h(1)] h(4) have "length m - j = 1" by auto
  with h(2,3) show ?thesis by auto
qed

lemma name_pattern_prefix:
  assumes "prefix m s" "name_pattern m"
  shows "\<exists>sfx\<in>set PLACE_SUFFIXES. \<exists>j. (j = 1 \<or> j = 2) \<and> length m = j + 1 \<and> j \<le> length s \<and>
           list_all is_han (take j s) \<and> startswith (drop j s) sfx"
proof -
  from assms(2) obtain sfx j where h: "sfx \<in> set PLACE_SUFFIXES" "j = 1 \<or> j = 2"
    "j \<le> length m" "list_all is_han (take j m)" "drop j m = sfx"
    by (auto simp: name_pattern_iff)
  from assms(1) obtain rest where s: "s = m @ rest" by (auto simp: prefix_def)
  from PLACE_SUFFIXES_length [OF h(1)] h(5) h(3) have lm: "length m = j + 1" by auto
  have "take j s = take j m" using h(3) by (simp add: s)
  moreover have "drop j s = sfx @ rest" using h(3,5) by (simp add: s)
  then have "startswith (drop j s) sfx" by (simp add: startswith_def)
  moreover have "j \<le> length s" using h(3) by (simp add: s)
  ultimately show ?thesis using h(1,2,4) lm by auto
qed

lemma han_take_1:
  "Suc 0 \<le> length s \<Longrightarrow> list_all is_han (take (Suc 0) s) = is_han (s ! 0)"
  by (cases s) auto

lemma han_take_2:
  "2 \<le> length s \<Longrightarrow> list_all is_han (take 2 s) = (is_han (s ! 0) \<and> is_han (s ! 1))"
  by (cases s; cases "tl s") auto

lemma match_candidate_None:
  assumes "match_candidate s = None" "prefix m s"
  shows "\<not> name_pattern m"
proof
  assume "name_pattern m"
  from name_pattern_prefix [OF assms(2) this] obtain sfx j where
    h: "sfx \<in> set PLACE_SUFFIXES" "j = 1 \<or> j = 2" "j \<le> length s"
       "list_all is_han (take j s)" "startswith (drop j s) sfx" by blast
  have alt: "match_alternative PLACE_SUFFIXES (drop j s) \<noteq> None"
    using match_alternative_None [of PLACE_SUFFIXES "drop j s" sfx] h(1,5) by blast
  from h(2) show False
  proof
    assume j: "j = 1"
    with h(3,4) have "1 \<le> length s" "is_han (s ! 0)" by (simp_all add: han_take_1)
    with alt j assms(1) show False
      by (auto simp: match_candidate_def split: if_splits)
  next
    assume j: "j = 2"
    with h(3,4) have "2 \<le> length s" "is_han (s ! 0)" "is_han (s ! 1)"
      by (simp_all add: han_take_2)
    with alt j assms(1) show False
      by (auto simp: match_candidate_def split: if_splits)
  qed
qed

lemma match_candidate_Some:
  assumes "match_candidate s = Some n"
  shows "1 \<le> n \<and> n \<le> length s \<and> name_pattern (take n s) \<and>
         (\<forall>m. prefix m s \<and> name_pattern m \<longrightarrow> length m \<le> n)"
proof -
  let ?two = "2 \<le> length s \<and> is_han (s ! 0) \<and> is_han (s ! 1)
         \<and> match_alternative PLACE_SUFFIXES (drop 2 s) \<noteq> None"
  have "\<exists>j k. (j = 1 \<or> j = 2) \<and> n = j + k \<and> j \<le> length s \<and> list_all is_han (take j s) \<and>
          match_alternative PLACE_SUFFIXES (drop j s) = Some k \<and> (j = 1 \<longrightarrow> \<not> ?two)"
  proof (cases ?two)
    case True
    then obtain k where k: "match_alternative PLACE_SUFFIXES (drop 2 s) = Some k" by auto
    with True assms have "n = 2 + k" by (simp add: match_candidate_def)
    moreover from True have "list_all is_han (take 2 s)" by (simp add: han_take_2)
    ultimately show ?thesis using True k by auto
  next
    case False
    with assms have
      b: "1 \<le> length s" "is_han (s ! 0)"
         "map_option (\<lambda>k. 1 + k) (match_alternative PLACE_SUFFIXES (drop 1 s)) = Some n"
      by (auto simp: match_candidate_def split: if_splits)
    then obtain k where k: "match_alternative PLACE_SUFFIXES (drop 1 s) = Some k" "n = 1 + k"
      by auto
    moreover from b(1,2) have "list_all is_han (take 1 s)" by (simp add: han_take_1)
    ultimately show ?thesis using b(1) False by blast
  qed
  then obtain j k where
    jk: "j = 1 \<or> j = 2" "n = j + k" "j \<le> length s" "list_all is_han (take j s)"
        "match_alternative PLACE_SUFFIXES (drop j s) = Some k" "j = 1 \<longrightarrow> \<not> ?two"
    by blast
  from match_alternative_Some [OF jk(5)] obtain a where
    a: "a \<in> set PLACE_SUFFIXES" "k = length a" "startswith (drop j s) a" by blast
  from PLACE_SUFFIXES_length [OF a(1)] a(2) have k1: "k = 1" by simp
  from startswith_length [OF a(3)] a(2) jk(2,3) have le: "n \<le> length s" by simp
  from a(3) have t: "take k (drop j s) = a" by (simp add: startswith_def a(2))
  have tn: "take n s = take j s @ a"
    using t jk(2) by (simp add: take_add)
  have lj: "length (take j s) = j" using jk(3) by simp
  have "j \<le> length (take n s) \<and> list_all is_han (take j (take n s)) \<and> drop j (take n s) = a"
    unfolding tn using lj jk(4) by simp
  with a(1) jk(1) have np: "name_pattern (take n s)"
    unfolding name_pattern_iff by blast
  have longest: "\<forall>m. prefix m s \<and> name_pattern m \<longrightarrow> length m \<le> n"
  proof (intro allI impI)
    fix m assume m: "prefix m s \<and> name_pattern m"
    from name_pattern_prefix [of m s] m obtain sfx j' where
      h: "sfx \<in> set PLACE_SUFFIXES" "j' = 1 \<or> j' = 2" "length m = j' + 1" "j' \<le> length s"
         "list_all is_han (take j' s)" "startswith (drop j' s) sfx" by blast
    show "length m \<le> n"
    proof (cases "j = 2")
      case True
      with jk(2) k1 h(2,3) show ?thesis by auto
    next
      case False
      with jk(1,6) have nt: "\<not> ?two" by simp
      have "j' \<noteq> 2"
      proof
        assume j2: "j' = 2"
        have "match_alternative PLACE_SUFFIXES (drop 2 s) \<noteq> None"
          using match_alternative_None [of PLACE_SUFFIXES "drop 2 s" sfx] h(1,6) j2 by blast
        with h(4,5) j2 nt show False by (simp add: han_take_2)
      qed
      with h(2,3) jk(1,2) k1 show ?thesis by auto
    qed
  qed
  from le jk(1,2) np longest show ?thesis by auto
qed

lemma filter_rev_prefixes_longest:
  assumes "prefix m s" "P m" "\<forall>m'. prefix m' s \<and> P m' \<longrightarrow> length m' \<le> length m"
  shows "\<exists>ms. filter P (rev (prefixes s)) = m # ms"
  using assms
proof (induction s rule: rev_induct)
  case Nil
  then show ?case by simp
next
  case (snoc x s)
  show ?case
  proof (cases "P (s @ [x])")
    case True
    with snoc.prems(3) have "length (s @ [x]) \<le> length m" by blast
    with snoc.prems(1) have "m = s @ [x]"
      by (metis prefix_length_le prefix_order.order_refl le_antisym prefix_length_prefix
            prefix_order.antisym)
    with True show ?thesis by simp
  next
    case False
    with snoc.prems(1,2) have pm: "prefix m s" by (auto simp: prefix_snoc)
    have "\<forall>m'. prefix m' s \<and> P m' \<longrightarrow> length m' \<le> length m"
      using snoc.prems(3) by (auto simp: prefix_snoc)
    from snoc.IH [OF pm snoc.prems(2) this] False show ?thesis by simp
  qed
qed

lemma matches_at_None: "match_candidate s = None \<Longrightarrow> matches_at s = []"
  by (auto simp: matches_at_def filter_empty_conv in_set_prefixes dest: match_candidate_None)

lemma matches_at_Some:
  assumes "match_candidate s = Some n"
  shows "\<exists>ms. matches_at s = take n s # ms"
proof -
  from match_candidate_Some [OF assms] have
    h: "n \<le> length s" "name_pattern (take n s)"
       "\<forall>m. prefix m s \<and> name_pattern m \<longrightarrow> length m \<le> n" by auto
  from h(1,3) have "\<forall>m'. prefix m' s \<and> name_pattern m' \<longrightarrow> length m' \<le> length (take n s)"
    by simp
  from filter_rev_prefixes_longest [OF take_is_prefix h(2) this]
  show ?thesis by (simp add: matches_at_def)
qed

lemma scan_matches_drop: "scan_matches k s = scan_matches 0 (drop k s)"
proof (induction k arbitrary: s)
  case 0
  show ?case by simp
next
  case (Suc k)
  then show ?case by (cases s) auto
qed

lemma findall_pattern_scan: "findall_pattern s = scan_matches 0 s"
proof (induction s rule: findall_pattern.induct)
  case 1
  show ?case by simp
next
  case (2 c s)
  show ?case
  proof (cases "match_candidate (c # s)")
    case None
    with "2.IH"(1) [OF None] matches_at_None [OF None] show ?thesis by simp
  next
    case (Some n)
    from match_candidate_Some [OF Some] have n: "1 \<le> n" "n \<le> length (c # s)" by auto
    then have mx: "max 1 n = n" by simp
    from matches_at_Some [OF Some] obtain ms where
      ms: "matches_at (c # s) = take n (c # s) # ms" by blast
    have "drop n (c # s) = drop (n - 1) s" using n(1) by (cases n) auto
    moreover have "length (take n (c # s)) = n" using n(2) by simp
    ultimately have "scan_matches 0 (c # s) = take n (c # s) # scan_matches 0 (drop n (c # s))"
      using ms scan_matches_drop [of "n - 1" s] by simp
    with "2.IH"(2) [OF Some] Some mx show ?thesis by simp
  qed
qed

lemma findall_pattern_first:
  "findall_pattern t = m # ms \<Longrightarrow>
   \<exists>pre post. t = pre @ m @ post \<and> findall_pattern post = ms \<and>
      (\<forall>i<length pre. match_candidate (drop i t) = None) \<and>
      match_candidate (m @ post) = Some (length m)"
proof (induction t rule: findall_pattern.induct)
  case 1
  then show ?case by simp
next
  case (2 c s)
  show ?case
  proof (cases "match_candidate (c # s)")
    case None
    with "2.prems" have "findall_pattern s = m # ms" by simp
    from "2.IH"(1) [OF None this] obtain pre post where
      p: "s = pre @ m @ post" "findall_pattern post = ms"
         "\<forall>i<length pre. match_candidate (drop i s) = None"
         "match_candidate (m @ post) = Some (length m)"
      by blast
    have "\<forall>i<length (c # pre). match_candidate (drop i (c # s)) = None"
    proof (intro allI impI)
      fix i assume "i < length (c # pre)"
      then show "match_candidate (drop i (c # s)) = None"
        using None p(3) by (cases i) auto
    qed
    moreover have "c # s = (c # pre) @ m @ post" using p(1) by simp
    ultimately show ?thesis using p(2,4) by blast
  next
    case (Some n)
    from match_candidate_Some [OF Some] have n: "1 \<le> n" "n \<le> length (c # s)" by auto
    then have mx: "max 1 n = n" by simp
    from "2.prems" Some mx have
      m: "m = take n (c # s)" "ms = findall_pattern (drop n (c # s))" by auto
    have "c # s = [] @ m @ drop n (c # s)" using m(1) by simp
    moreover have "match_candidate (m @ drop n (c # s)) = Some (length m)"
      using m(1) Some n(2) by simp
    ultimately show ?thesis using m(2) by (metis list.size(3) not_less_zero)
  qed
qed

lemma findall_pattern_weave:
  "\<exists>gs. length gs = Suc (length (findall_pattern t)) \<and> weave gs (findall_pattern t) = t"
proof (induction t rule: findall_pattern.induct)
  case 1
  have "length [[]::ustr] = Suc (length (findall_pattern [])) \<and> weave [[]] (findall_pattern []) = []"
    by simp
  then show ?case by blast
next
  case (2 c s)
  show ?case
  proof (cases "match_candidate (c # s)")
    case None
    from "2.IH"(1) [OF None] obtain gs where
      gs: "length gs = Suc (length (findall_pattern s))" "weave gs (findall_pattern s) = s"
      by blast
    then obtain g rest where g: "gs = g # rest" by (cases gs) auto
    have "weave ((c # g) # rest) (findall_pattern s) = c # weave (g # rest) (findall_pattern s)"
      by (cases "findall_pattern s") auto
    with gs g None have
      "length ((c # g) # rest) = Suc (length (findall_pattern (c # s))) \<and>
       weave ((c # g) # rest) (findall_pattern (c # s)) = c # s"
      by simp
    then show ?thesis by blast
  next
    case (Some n)
    from match_candidate_Some [OF Some] have n: "1 \<le> n" "n \<le> length (c # s)" by auto
    then have mx: "max 1 n = n" by simp
    from "2.IH"(2) [OF Some] mx obtain gs where
      gs: "length gs = Suc (length (findall_pattern (drop n (c # s))))"
          "weave gs (findall_pattern (drop n (c # s))) = drop n (c # s)"
      by auto
    then obtain g rest where g: "gs = g # rest" by (cases gs) auto
    have f: "findall_pattern (c # s) = take n (c # s) # findall_pattern (drop n (c # s))"
      using Some mx by simp
    have "weave ([] # gs) (findall_pattern (c # s)) = take n (c # s) @ drop n (c # s)"
      unfolding f using gs(2) g by simp
    then have "length ([] # gs) = Suc (length (findall_pattern (c # s))) \<and>
       weave ([] # gs) (findall_pattern (c # s)) = c # s"
      using gs(1) f by simp
    then show ?thesis by blast
  qed
qed

lemma weave_sublist:
  "length gs = Suc (length ms) \<Longrightarrow> m \<in> set ms \<Longrightarrow> sublist m (weave gs ms)"
proof (induction gs ms rule: weave.induct)
  case (1 g gs m' ms)
  show ?case
  proof (cases "m = m'")
    case True
    then show ?thesis by simp
  next
    case False
    with 1 have "sublist m (weave gs ms)" by simp
    then obtain ps ss where "weave gs ms = ps @ m @ ss" by (auto simp: sublist_def)
    then have "weave (g # gs) (m' # ms) = (g @ m' @ ps) @ m @ ss" by simp
    then show ?thesis by (metis sublist_appendI)
  qed
qed simp_all

lemma findall_pattern_matches:
  assumes "m \<in> set (findall_pattern t)"
  shows "name_pattern m \<and> sublist m t"
proof -
  have "name_pattern m" using assms
  proof (induction t rule: findall_pattern.induct)
    case 1
    then show ?case by simp
  next
    case (2 c s)
    then show ?case
      by (cases "match_candidate (c # s)") (auto dest: match_candidate_Some)
  qed
  moreover from findall_pattern_weave [of t] obtain gs where
    "length gs = Suc (length (findall_pattern t))" "weave gs (findall_pattern t) = t" by blast
  with weave_sublist [of gs "findall_pattern t" m] assms have "sublist m t" by simp
  ultimately show ?thesis by simp
qed

lemma validate_and_resolve_eq: "validate_and_resolve r = resolve_scan r"
proof (cases "filter is_valid_placename (findall_pattern (text' r))")
  case Nil
  then show ?thesis
    by (simp add: validate_and_resolve_def resolve_scan_def Let_def findall_pattern_scan [symmetric])
next
  case (Cons a list)
  then have "a \<in> set (filter is_valid_placename (findall_pattern (text' r)))" by simp
  then have "is_valid_placename a" by simp
  with Cons show ?thesis
    by (auto simp: validate_and_resolve_def resolve_scan_def Let_def
          findall_pattern_scan [symmetric])
qed

lemma resolve_scan_idem:
  assumes "resolve_scan r = Some r'"
  shows "resolve_scan r' = Some r'"
proof -
  define vc where "vc = filter is_valid_placename (scan_matches 0 (text' r))"
  define final where
    "final = (if vc \<noteq> [] \<and> (placename r \<notin> set vc \<or> \<not> is_valid_placename (placename r))
              then hd vc else placename r)"
  from assms have r': "r' = r\<lparr>placename := final\<rparr>" and v: "is_valid_placename final"
    by (auto simp: resolve_scan_def Let_def vc_def final_def split: if_splits)
  have "vc = [] \<or> final \<in> set vc"
    by (cases vc) (auto simp: final_def)
  with v have keep: "\<not> (vc \<noteq> [] \<and> (final \<notin> set vc \<or> \<not> is_valid_placename final))"
    by auto
  have t: "text' r' = text' r" and p: "placename r' = final" by (simp_all add: r')
  have "resolve_scan r' = Some (r'\<lparr>placename := final\<rparr>)"
    using keep v by (auto simp: resolve_scan_def Let_def t p vc_def [symmetric])
  then show ?thesis by (simp add: r')
qed

lemma match_alternative_A: "match_alternative PLACE_SUFFIXES [0x90E1] = Some 1"
  by (simp add: PLACE_SUFFIXES_def)

lemma match_candidate_A: "match_candidate [0x5C6C, 0x5357, 0x90E1] = Some 3"
  by (simp add: match_candidate_def is_han_def match_alternative_A)

lemma findall_text_A: "findall_pattern [0x5C6C, 0x5357, 0x90E1] = [[0x5C6C, 0x5357, 0x90E1]]"
  by (simp add: match_candidate_A)

lemma findall_record_A: "findall_pattern (text' record_A) = [[0x5C6C, 0x5357, 0x90E1]]"
  by (simp add: record_A_def match_candidate_A)

lemma valid_record_A_names:
  "is_valid_placename [0x5C6C, 0x5357, 0x90E1]" "is_valid_placename [0x6C5F, 0x9675, 0x7E23]"
  by (simp_all add: is_valid_placename_def endswith_def PLACE_SUFFIXES_def STOP_START_WORDS_def)

lemma validate_record_A: "validate_and_resolve record_A = Some record_A_resolved"
  by (simp add: validate_and_resolve_def Let_def record_A_def record_A_resolved_def
        match_candidate_A valid_record_A_names)

lemma match_candidate_B1:
  "match_candidate [0x4E4B, 0x7532, 0x5C71, 0x7E23, 0x4E59, 0x57CE] = Some 3"
  by (simp add: match_candidate_def is_han_def PLACE_SUFFIXES_def)

lemma match_candidate_B2: "match_candidate [0x7E23, 0x4E59, 0x57CE] = Some 3"
  by (simp add: match_candidate_def is_han_def PLACE_SUFFIXES_def)

lemma findall_text_B:
  "findall_pattern [0x4E4B, 0x7532, 0x5C71, 0x7E23, 0x4E59, 0x57CE] =
     [[0x4E4B, 0x7532, 0x5C71], [0x7E23, 0x4E59, 0x57CE]]"
  by (simp add: match_candidate_B1 match_candidate_B2)

lemma findall_record_B:
  "findall_pattern (text' record_B) = [[0x4E4B, 0x7532, 0x5C71], [0x7E23, 0x4E59, 0x57CE]]"
  by (simp add: record_B_def match_candidate_B1 match_candidate_B2)

lemma valid_record_B_names:
  "is_valid_placename [0x4E4B, 0x7532, 0x5C71] = False"
  "is_valid_placename [0x7E23, 0x4E59, 0x57CE]"
  "is_valid_placename [0x7532, 0x5C71, 0x7E23]"
  "is_valid_placename [0x7532, 0x5C71]"
  by (simp_all add: is_valid_placename_def endswith_def PLACE_SUFFIXES_def STOP_START_WORDS_def)

lemma validate_record_B: "validate_and_resolve record_B = Some record_B_scanned"
  by (simp add: validate_and_resolve_def Let_def record_B_def record_B_scanned_def
        match_candidate_B1 match_candidate_B2 valid_record_B_names)

lemma name_pattern_B: "name_pattern [0x7532, 0x5C71]" "name_pattern [0x7532, 0x5C71, 0x7E23]"
  by (simp_all add: name_pattern_def PLACE_SUFFIXES_def is_han_def)

lemma all_matches_B:
  "all_matches [0x4E4B, 0x7532, 0x5C71, 0x7E23, 0x4E59, 0x57CE] =
     [[0x4E4B, 0x7532, 0x5C71], [0x7532, 0x5C71, 0x7E23], [0x7532, 0x5C71], [0x5C71, 0x7E23],
      [0x7E23, 0x4E59, 0x57CE], [0x4E59, 0x57CE]]"
  by (simp add: matches_at_def name_pattern_def PLACE_SUFFIXES_def is_han_def)

lemma valid_matches_B:
  "filter is_valid_placename (all_matches [0x4E4B, 0x7532, 0x5C71, 0x7E23, 0x4E59, 0x57CE]) =
     [[0x7532, 0x5C71, 0x7E23], [0x7532, 0x5C71], [0x5C71, 0x7E23],
      [0x7E23, 0x4E59, 0x57CE], [0x4E59, 0x57CE]]"
  unfolding all_matches_B
  by (simp add: is_valid_placename_def endswith_def PLACE_SUFFIXES_def STOP_START_WORDS_def)

lemma resolve_spec_record_B: "resolve_spec record_B = Some record_B_leftmost"
proof -
  have t: "text' record_B = [0x4E4B, 0x7532, 0x5C71, 0x7E23, 0x4E59, 0x57CE]"
    by (simp add: record_B_def)
  have v: "filter is_valid_placename (all_matches (text' record_B)) =
     [[0x7532, 0x5C71, 0x7E23], [0x7532, 0x5C71], [0x5C71, 0x7E23],
      [0x7E23, 0x4E59, 0x57CE], [0x4E59, 0x57CE]]"
    unfolding t by (rule valid_matches_B)
  show ?thesis
    unfolding resolve_spec_def Let_def v
    by (simp add: record_B_def record_B_leftmost_def valid_record_B_names)
qed

text \<open>
  C4, as stated, fails: the candidates the code collects are not all the substrings that
  match the pattern, and the name it picks is not always the left-most validated one. In
  the text of \<open>record_B\<close> the match found at index 0 is invalid and covers the first
  character of a valid name that starts at index 1; the scan goes on behind the match and
  the code picks the name at index 3.
\<close>

theorem leftmost_candidate_counterexample:
  "validate_and_resolve record_B = Some record_B_scanned \<and>
   resolve_spec record_B = Some record_B_leftmost \<and>
   validate_and_resolve record_B \<noteq> resolve_spec record_B \<and>
   name_pattern [0x7532, 0x5C71] \<and> is_valid_placename [0x7532, 0x5C71] \<and>
   find_str (text' record_B) [0x7532, 0x5C71] = Some 1 \<and>
   find_str (text' record_B) (placename record_B_scanned) = Some 3"
  using name_pattern_B(1) valid_record_B_names(4)
  by (simp add: validate_record_B resolve_spec_record_B)
     (simp add: record_B_def record_B_scanned_def record_B_leftmost_def)

text \<open>
  C4, amended. \<open>validate_and_resolve\<close> is re-resolution over the matches of a scan
  from left to right without overlap: at each place where the pattern matches, the
  longest match there, and then the scan goes on behind it. These are the candidates
  \<open>findall\<close> reports; each is one or two characters of the range followed by a suffix
  token and occurs in the text, they lie in the text in the order of the list, and
  before the first of them the pattern matches nowhere. The candidates are filtered
  through the validator; if the filtered list is not empty and the original name is
  absent from it or invalid, the name becomes the first validated candidate of the scan;
  a record whose final name is invalid is discarded.
\<close>

theorem validate_and_resolve_behaviour:
  "validate_and_resolve r = resolve_scan r \<and>
   findall_pattern (text' r) = scan_matches 0 (text' r) \<and>
   (\<forall>m\<in>set (findall_pattern (text' r)). name_pattern m \<and> sublist m (text' r)) \<and>
   (\<exists>gaps. length gaps = Suc (length (findall_pattern (text' r))) \<and>
      weave gaps (findall_pattern (text' r)) = text' r) \<and>
   (\<forall>m ms. findall_pattern (text' r) = m # ms \<longrightarrow>
      (\<exists>pre post. text' r = pre @ m @ post \<and> findall_pattern post = ms \<and>
         (\<forall>i<length pre. match_candidate (drop i (text' r)) = None)))"
proof (intro conjI ballI allI impI)
  show "validate_and_resolve r = resolve_scan r" by (rule validate_and_resolve_eq)
next
  show "findall_pattern (text' r) = scan_matches 0 (text' r)" by (rule findall_pattern_scan)
next
  fix m assume "m \<in> set (findall_pattern (text' r))"
  from findall_pattern_matches [OF this]
  show "name_pattern m" and "sublist m (text' r)" by simp_all
next
  show "\<exists>gaps. length gaps = Suc (length (findall_pattern (text' r))) \<and>
      weave gaps (findall_pattern (text' r)) = text' r"
    by (rule findall_pattern_weave)
next
  fix m ms assume "findall_pattern (text' r) = m # ms"
  from findall_pattern_first [OF this]
  show "\<exists>pre post. text' r = pre @ m @ post \<and> findall_pattern post = ms \<and>
         (\<forall>i<length pre. match_candidate (drop i (text' r)) = None)"
    by blast
qed

theorem validate_and_resolve_behaviour_witness:
  "scan_matches 0 (text' record_A) = [[0x5C6C, 0x5357, 0x90E1]] \<and>
   resolve_scan record_A = Some record_A_resolved \<and>
   name_pattern [0x5C6C, 0x5357, 0x90E1] \<and>
   sublist [0x5C6C, 0x5357, 0x90E1] (text' record_A) \<and>
   scan_matches 0 (text' record_B) = [[0x4E4B, 0x7532, 0x5C71], [0x7E23, 0x4E59, 0x57CE]] \<and>
   resolve_scan record_B = Some record_B_scanned"
  using validate_and_resolve_behaviour [of record_A] validate_and_resolve_behaviour [of record_B]
    findall_record_A validate_record_A findall_record_B validate_record_B
  by simp

text \<open>
  C6. Re-resolution is idempotent: a record that \<open>validate_and_resolve\<close> returns is
  returned unchanged when it is resolved again.
\<close>

theorem validate_and_resolve_idempotent:
  assumes "validate_and_resolve r = Some r'"
  shows "validate_and_resolve r' = Some r'"
  using assms resolve_scan_idem [of r r'] by (simp add: validate_and_resolve_eq)

theorem validate_and_resolve_idempotent_witness:
  "validate_and_resolve record_A = Some record_A_resolved \<and>
   validate_and_resolve record_A_resolved = Some record_A_resolved"
  using validate_and_resolve_idempotent [OF validate_record_A] validate_record_A by simp

section \<open>The aggregation\<close>

lemma map_fst_append_to: "map fst (append_to k v agg) = map fst agg"
  by (induction agg) auto

lemma has_key_append_to: "has_key k' (append_to k v agg) = has_key k' agg"
  by (simp add: has_key_def map_fst_append_to)

lemma list_all_append_to:
  "list_all bucket_ok agg \<Longrightarrow> stored_ok v \<Longrightarrow> list_all bucket_ok (append_to k v agg)"
  by (induction agg) (auto simp: bucket_ok_def)

lemma buckets_inv_append_to:
  "buckets_inv agg \<Longrightarrow> stored_ok v \<Longrightarrow> buckets_inv (append_to k v agg)"
  by (simp add: buckets_inv_def map_fst_append_to list_all_append_to)

lemma get_bucket_append_to:
  "distinct (map fst agg) \<Longrightarrow> has_key k agg \<Longrightarrow>
   get_bucket (append_to k v agg) k' =
     (if k' = k then get_bucket agg k @ [v] else get_bucket agg k')"
proof (induction agg)
  case Nil
  then show ?case by (simp add: has_key_def)
next
  case (Cons b agg)
  obtain kb ts where b: "b = (kb, ts)" by (cases b)
  show ?case
  proof (cases "kb = k")
    case True
    then show ?thesis by (simp add: b get_bucket_def)
  next
    case False
    with Cons.prems have "distinct (map fst agg)" "has_key k agg"
      by (auto simp: b has_key_def)
    from Cons.IH [OF this] False show ?thesis
      by (auto simp: b get_bucket_def)
  qed
qed

lemma hd_lstrip: "lstrip cs s \<noteq> [] \<Longrightarrow> hd (lstrip cs s) \<notin> set cs"
  unfolding lstrip_def using hd_dropWhile [of "\<lambda>c. c \<in> set cs" s] by simp

lemma hd_residual_content:
  "residual_content line p \<noteq> [] \<Longrightarrow> hd (residual_content line p) \<notin> set strip_chars"
  unfolding residual_content_def Let_def by (rule hd_lstrip)

lemma stored_ok_content:
  assumes "residual_content line p \<noteq> []"
  shows "stored_ok (residual_content line p)"
proof -
  from hd_residual_content [OF assms]
  have h: "hd (residual_content line p) \<notin> set strip_chars" .
  then have "hd (residual_content line p) \<noteq> 0x20" by (auto simp: strip_chars_def)
  with h assms show ?thesis by (simp add: stored_ok_def)
qed

lemma hd_strip:
  assumes "strip s \<noteq> []"
  shows "\<not> is_space (hd (strip s))"
proof -
  let ?a = "dropWhile is_space s"
  let ?b = "dropWhile is_space (rev ?a)"
  from assms have b: "?b \<noteq> []" by (simp add: strip_def)
  have a: "?a \<noteq> []"
  proof
    assume "?a = []"
    then have "?b = []" by (simp only: rev.simps dropWhile.simps)
    with b show False by simp
  qed
  have "suffix ?b (rev ?a)" by (rule suffix_dropWhile)
  then obtain zs where "rev ?a = zs @ ?b" by (auto simp: suffix_def)
  with b have "last (rev ?a) = last ?b" by (metis last_appendR)
  moreover have "last (rev ?a) = hd ?a" using a by (simp add: last_rev)
  moreover have "hd (strip s) = last ?b" using b by (simp add: strip_def hd_rev)
  moreover have "\<not> is_space (hd ?a)" using a by (rule hd_dropWhile)
  ultimately show ?thesis by simp
qed

lemma extract_valid_placename_nonempty:
  "extract_valid_placename line = Some p \<Longrightarrow> p \<noteq> []"
  using extract_valid_placename_Some [of line p] by auto

lemma stored_ok_line:
  assumes "strip raw \<noteq> []" "extract_valid_placename (strip raw) = None"
  shows "stored_ok (strip raw)"
proof -
  from hd_strip [OF assms(1)] have "hd (strip raw) \<noteq> 0x20"
    by (auto simp: is_space_def)
  with assms show ?thesis by (simp add: stored_ok_def)
qed

lemma attach_line_inv:
  assumes "state_inv fname (agg, last_place)" "stored_ok line"
  shows "\<exists>st'. attach_line fname agg last_place line = Inr st' \<and> state_inv fname st'"
proof (cases last_place)
  case None
  with assms show ?thesis by (simp add: attach_line_def)
next
  case (Some lp)
  with assms have lp: "lp \<noteq> []" "has_key (lp, fname) agg" "buckets_inv agg"
    by (simp_all add: state_inv_def)
  then have "attach_line fname agg last_place line = Inr (append_to (lp, fname) line agg, Some lp)"
    by (simp add: attach_line_def Some)
  moreover have "state_inv fname (append_to (lp, fname) line agg, Some lp)"
    using lp assms(2) by (simp add: state_inv_def buckets_inv_append_to has_key_append_to)
  ultimately show ?thesis by simp
qed

lemma open_place_inv:
  assumes "buckets_inv agg" "is_valid_placename p" "p \<noteq> []"
  shows "state_inv fname (open_place fname agg p line)"
proof -
  let ?key = "(p, fname)"
  let ?agg1 = "if \<not> has_key ?key agg then agg @ [(?key, [])] else agg"
  let ?content = "residual_content line p"
  have 1: "buckets_inv ?agg1"
    using assms(1,2) by (auto simp: buckets_inv_def has_key_def bucket_ok_def)
  have k: "has_key ?key ?agg1" by (auto simp: has_key_def)
  have "buckets_inv (if ?content \<noteq> [] then append_to ?key ?content ?agg1 else ?agg1) \<and>
        has_key ?key (if ?content \<noteq> [] then append_to ?key ?content ?agg1 else ?agg1)"
    using 1 k stored_ok_content [of line p]
    by (simp add: buckets_inv_append_to has_key_append_to)
  with assms(3) show ?thesis
    by (simp add: open_place_def Let_def state_inv_def)
qed

lemma process_line_inv:
  assumes "state_inv fname st"
  shows "\<exists>st'. process_line fname st raw = Inr st' \<and> state_inv fname st'"
proof (cases "strip raw = []")
  case True
  with assms show ?thesis by (simp add: process_line_def)
next
  case False
  obtain agg last_place where st: "st = (agg, last_place)" by (cases st)
  show ?thesis
  proof (cases "extract_valid_placename (strip raw)")
    case None
    from attach_line_inv [OF assms [unfolded st] stored_ok_line [OF False None]]
    show ?thesis using False None by (simp add: process_line_def st)
  next
    case (Some p)
    from extract_valid_placename_nonempty [OF Some] extract_valid_placename_valid [OF Some]
    have p: "p \<noteq> []" "is_valid_placename p" by simp_all
    from assms have "buckets_inv agg" by (simp add: state_inv_def st)
    from open_place_inv [OF this p(2) p(1)] show ?thesis
      using False Some p(1) by (simp add: process_line_def st)
  qed
qed

lemma process_lines_inv:
  "state_inv fname st \<Longrightarrow>
   \<exists>st'. process_lines fname st lines = Inr st' \<and> state_inv fname st'"
proof (induction lines arbitrary: st)
  case Nil
  then show ?case by simp
next
  case (Cons raw rest)
  from process_line_inv [OF Cons.prems] obtain st1 where
    s1: "process_line fname st raw = Inr st1" "state_inv fname st1" by blast
  from Cons.IH [OF s1(2)] s1(1) show ?case by simp
qed

lemma process_files_inv:
  "buckets_inv agg \<Longrightarrow> \<exists>agg'. process_files agg files = Inr agg' \<and> buckets_inv agg'"
proof (induction files arbitrary: agg)
  case Nil
  then show ?case by simp
next
  case (Cons f rest)
  obtain fname lines where f: "f = (fname, lines)" by (cases f)
  from Cons.prems have "state_inv fname (agg, None)" by (simp add: state_inv_def)
  from process_lines_inv [OF this] obtain st' where
    s: "process_lines fname (agg, None) lines = Inr st'" "state_inv fname st'" by blast
  then have "buckets_inv (fst st')" by (simp add: state_inv_def)
  from Cons.IH [OF this] s(1) show ?case by (simp add: f)
qed

lemma aggregate_inv: "\<exists>agg. aggregate files = Inr agg \<and> buckets_inv agg"
  unfolding aggregate_def by (rule process_files_inv) (simp add: buckets_inv_def)

lemma to_records_member:
  "r \<in> set (to_records agg) \<longleftrightarrow>
   (\<exists>name src texts. ((name, src), texts) \<in> set agg \<and> combined_text texts \<noteq> [] \<and>
      r = \<lparr>placename = name, text' = combined_text texts, source = src\<rparr>)"
  by (induction agg rule: to_records.induct) auto

lemma to_records_keys:
  "map (\<lambda>r. (placename r, source r)) (to_records agg) =
   map fst (filter (\<lambda>b. combined_text (snd b) \<noteq> []) agg)"
  by (induction agg rule: to_records.induct) auto

lemma remdups_snoc: "remdups (xs @ [x]) = filter (\<lambda>y. y \<noteq> x) (remdups xs) @ [x]"
  by (induction xs) auto

lemma fromkeys_remdups: "fromkeys xs = rev (remdups (rev xs))"
proof (induction xs rule: fromkeys.induct)
  case 1
  show ?case by simp
next
  case (2 x xs)
  have "rev (remdups (rev (x # xs))) = x # rev (filter (\<lambda>y. y \<noteq> x) (remdups (rev xs)))"
    by (simp add: remdups_snoc)
  also have "filter (\<lambda>y. y \<noteq> x) (remdups (rev xs)) = remdups (rev (filter (\<lambda>y. y \<noteq> x) xs))"
    by (simp add: remdups_filter rev_filter)
  finally show ?case using 2 by simp
qed

lemma fromkeys_set: "set (fromkeys xs) = set xs"
  by (simp add: fromkeys_remdups)

lemma fromkeys_distinct: "distinct (fromkeys xs)"
  by (simp add: fromkeys_remdups)

lemma combined_text_nonempty:
  assumes "list_all stored_ok texts"
  shows "combined_text texts \<noteq> [] \<longleftrightarrow> texts \<noteq> []"
proof (cases texts)
  case Nil
  then show ?thesis by (simp add: combined_text_def)
next
  case (Cons t ts)
  with assms have "t \<noteq> []" by (simp add: stored_ok_def)
  then have "join [0x20] (t # fromkeys (filter (\<lambda>y. y \<noteq> t) ts)) \<noteq> []"
    by (cases "fromkeys (filter (\<lambda>y. y \<noteq> t) ts)") auto
  with Cons show ?thesis by (simp add: combined_text_def)
qed

lemma filter_nonempty_buckets:
  assumes "buckets_inv agg"
  shows "filter (\<lambda>b. combined_text (snd b) \<noteq> []) agg = filter (\<lambda>b. snd b \<noteq> []) agg"
proof (rule filter_cong [OF refl])
  fix b assume "b \<in> set agg"
  with assms have "list_all stored_ok (snd b)"
    by (auto simp: buckets_inv_def bucket_ok_def list_all_iff)
  then show "(combined_text (snd b) \<noteq> []) = (snd b \<noteq> [])"
    by (rule combined_text_nonempty)
qed

lemma set_keys_of: "set (keys_of evs) = fst ` set evs"
  by (simp add: keys_of_def)

lemma keys_of_snoc:
  "keys_of (evs @ [(k, t)]) = (if k \<in> fst ` set evs then keys_of evs else keys_of evs @ [k])"
  by (simp add: keys_of_def)

lemma texts_of_snoc:
  "texts_of k' (evs @ [(k, t)]) = texts_of k' evs @ (if k' = k \<and> t \<noteq> [] then [t] else [])"
  by (simp add: texts_of_def)

lemma get_bucket_new_key:
  assumes "\<not> has_key k agg"
  shows "get_bucket (agg @ [(k, [])]) k' = get_bucket agg k'"
proof -
  from assms have "map_of agg k = None" by (simp add: has_key_def map_of_eq_None_iff)
  then show ?thesis
    by (cases "k' = k") (auto simp: get_bucket_def map_add_def split: option.splits)
qed

lemma represents_empty: "represents [] []"
  by (simp add: represents_def keys_of_def texts_of_def get_bucket_def)

lemma represents_open_place:
  assumes "represents agg evs" "distinct (map fst agg)"
  shows "represents (fst (open_place fname agg p line))
           (evs @ [((p, fname), residual_content line p)])"
proof -
  let ?key = "(p, fname)"
  let ?content = "residual_content line p"
  let ?agg1 = "if \<not> has_key ?key agg then agg @ [(?key, [])] else agg"
  from assms(1) have keys: "map fst agg = keys_of evs"
    and texts: "\<And>k. get_bucket agg k = texts_of k evs"
    unfolding represents_def by blast+
  have hk: "has_key ?key agg \<longleftrightarrow> ?key \<in> fst ` set evs"
    using set_keys_of [of evs] by (simp add: has_key_def keys [symmetric])
  have k1: "map fst ?agg1 = keys_of (evs @ [(?key, ?content)])"
    using hk keys by (simp add: keys_of_snoc)
  have t1: "get_bucket ?agg1 k = texts_of k evs" for k
    using texts by (simp add: get_bucket_new_key)
  have d1: "distinct (map fst ?agg1)" using assms(2) by (auto simp: has_key_def)
  have h1: "has_key ?key ?agg1" by (auto simp: has_key_def)
  let ?agg2 = "if ?content \<noteq> [] then append_to ?key ?content ?agg1 else ?agg1"
  have k2: "map fst ?agg2 = keys_of (evs @ [(?key, ?content)])"
    using k1 by (simp add: map_fst_append_to)
  have t2: "get_bucket ?agg2 k = texts_of k (evs @ [(?key, ?content)])" for k
    using t1 get_bucket_append_to [OF d1 h1] by (simp add: texts_of_snoc)
  have "fst (open_place fname agg p line) = ?agg2"
    by (simp add: open_place_def Let_def)
  with k2 t2 show ?thesis by (simp add: represents_def)
qed

lemma represents_append_to:
  assumes "represents agg evs" "distinct (map fst agg)" "has_key k agg" "line \<noteq> []"
  shows "represents (append_to k line agg) (evs @ [(k, line)])"
proof -
  from assms(1) have keys: "map fst agg = keys_of evs"
    and texts: "\<And>k. get_bucket agg k = texts_of k evs"
    unfolding represents_def by blast+
  from assms(3) have "k \<in> fst ` set evs"
    using set_keys_of [of evs] by (simp add: has_key_def keys [symmetric])
  then have "map fst (append_to k line agg) = keys_of (evs @ [(k, line)])"
    using keys by (simp add: keys_of_snoc map_fst_append_to)
  moreover have "get_bucket (append_to k line agg) k' = texts_of k' (evs @ [(k, line)])" for k'
    using texts assms(4) get_bucket_append_to [OF assms(2,3)] by (simp add: texts_of_snoc)
  ultimately show ?thesis by (simp add: represents_def)
qed

lemma process_lines_represents:
  "state_inv fname (agg, cur) \<Longrightarrow> represents agg evs \<Longrightarrow>
   \<exists>agg' cur'. process_lines fname (agg, cur) lines = Inr (agg', cur') \<and>
      state_inv fname (agg', cur') \<and>
      represents agg' (evs @ line_events fname cur lines)"
proof (induction lines arbitrary: agg cur evs)
  case Nil
  then show ?case by simp
next
  case (Cons raw rest)
  from Cons.prems(1) have d: "distinct (map fst agg)" and bi: "buckets_inv agg"
    by (simp_all add: state_inv_def buckets_inv_def)
  show ?case
  proof (cases "strip raw = []")
    case True
    with Cons.IH [OF Cons.prems] show ?thesis by (simp add: process_line_def)
  next
    case False
    show ?thesis
    proof (cases "extract_valid_placename (strip raw)")
      case (Some p)
      from extract_valid_placename_nonempty [OF Some] extract_valid_placename_valid [OF Some]
      have p: "p \<noteq> []" "is_valid_placename p" by simp_all
      let ?st = "open_place fname agg p (strip raw)"
      have pl: "process_line fname (agg, cur) raw = Inr ?st"
        using False Some p(1) by (simp add: process_line_def)
      have st: "?st = (fst ?st, Some p)" by (simp add: open_place_def Let_def)
      have si: "state_inv fname (fst ?st, Some p)"
        using open_place_inv [OF bi p(2) p(1), of fname "strip raw"] st by simp
      have rp: "represents (fst ?st) (evs @ [((p, fname), residual_content (strip raw) p)])"
        by (rule represents_open_place [OF Cons.prems(2) d])
      from Cons.IH [OF si rp] obtain agg' cur' where
        r: "process_lines fname (fst ?st, Some p) rest = Inr (agg', cur')"
           "state_inv fname (agg', cur')"
           "represents agg' ((evs @ [((p, fname), residual_content (strip raw) p)])
              @ line_events fname (Some p) rest)"
        by blast
      have "process_lines fname (agg, cur) (raw # rest) = Inr (agg', cur')"
        using pl st r(1) by simp
      moreover have "line_events fname cur (raw # rest) =
          ((p, fname), residual_content (strip raw) p) # line_events fname (Some p) rest"
        using False Some by (simp add: Let_def)
      ultimately show ?thesis using r(2,3) by simp
    next
      case None
      show ?thesis
      proof (cases cur)
        case cn: None
        have "process_line fname (agg, cur) raw = Inr (agg, cur)"
          using False None cn by (simp add: process_line_def attach_line_def)
        moreover have "line_events fname cur (raw # rest) = line_events fname cur rest"
          using False None cn by (simp add: Let_def)
        ultimately show ?thesis using Cons.IH [OF Cons.prems] by simp
      next
        case cs: (Some lp)
        with Cons.prems(1) have lp: "lp \<noteq> []" "has_key (lp, fname) agg"
          by (simp_all add: state_inv_def)
        let ?agg1 = "append_to (lp, fname) (strip raw) agg"
        have pl: "process_line fname (agg, cur) raw = Inr (?agg1, cur)"
          using False None cs lp by (simp add: process_line_def attach_line_def)
        have si: "state_inv fname (?agg1, cur)"
          using bi lp cs stored_ok_line [OF False None]
          by (simp add: state_inv_def buckets_inv_append_to has_key_append_to)
        have rp: "represents ?agg1 (evs @ [((lp, fname), strip raw)])"
          by (rule represents_append_to [OF Cons.prems(2) d lp(2) False])
        from Cons.IH [OF si rp] obtain agg' cur' where
          r: "process_lines fname (?agg1, cur) rest = Inr (agg', cur')"
             "state_inv fname (agg', cur')"
             "represents agg' ((evs @ [((lp, fname), strip raw)]) @ line_events fname cur rest)"
          by blast
        have "process_lines fname (agg, cur) (raw # rest) = Inr (agg', cur')"
          using pl r(1) by simp
        moreover have "line_events fname cur (raw # rest) =
            ((lp, fname), strip raw) # line_events fname cur rest"
          using False None cs by (simp add: Let_def)
        ultimately show ?thesis using r(2,3) by simp
      qed
    qed
  qed
qed

lemma process_files_represents:
  "buckets_inv agg \<Longrightarrow> represents agg evs \<Longrightarrow>
   \<exists>agg'. process_files agg files = Inr agg' \<and> buckets_inv agg' \<and>
      represents agg' (evs @ attributions files)"
proof (induction files arbitrary: agg evs)
  case Nil
  then show ?case by simp
next
  case (Cons f rest)
  obtain fname lines where f: "f = (fname, lines)" by (cases f)
  from Cons.prems(1) have "state_inv fname (agg, None)" by (simp add: state_inv_def)
  from process_lines_represents [OF this Cons.prems(2)] obtain agg1 cur1 where
    s: "process_lines fname (agg, None) lines = Inr (agg1, cur1)"
       "state_inv fname (agg1, cur1)"
       "represents agg1 (evs @ line_events fname None lines)" by blast
  from s(2) have "buckets_inv agg1" by (simp add: state_inv_def)
  from Cons.IH [OF this s(3)] s(1) show ?case by (simp add: f)
qed

lemma aggregate_represents:
  "\<exists>agg. aggregate files = Inr agg \<and> buckets_inv agg \<and> represents agg (attributions files)"
proof -
  have "buckets_inv []" by (simp add: buckets_inv_def)
  from process_files_represents [OF this represents_empty, of files]
  show ?thesis by (simp add: aggregate_def)
qed

lemma get_bucket_member:
  "distinct (map fst agg) \<Longrightarrow> (k, texts) \<in> set agg \<Longrightarrow> get_bucket agg k = texts"
  by (simp add: get_bucket_def)

lemma nonempty_bucket_keys:
  assumes "distinct (map fst agg)"
  shows "map fst (filter (\<lambda>b. snd b \<noteq> []) agg) =
         filter (\<lambda>k. get_bucket agg k \<noteq> []) (map fst agg)"
proof -
  have "filter (\<lambda>b. snd b \<noteq> []) agg = filter (\<lambda>b. get_bucket agg (fst b) \<noteq> []) agg"
  proof (rule filter_cong [OF refl])
    fix b assume "b \<in> set agg"
    then have "(fst b, snd b) \<in> set agg" by simp
    from get_bucket_member [OF assms this]
    show "(snd b \<noteq> []) = (get_bucket agg (fst b) \<noteq> [])" by simp
  qed
  then show ?thesis by (simp add: filter_map comp_def)
qed

lemma extract_from_directory_aggregate:
  "aggregate files = Inr agg \<Longrightarrow> extract_from_directory files = Inr (to_records agg)"
  by (simp add: extract_from_directory_def)

lemma bucket_ok_member:
  "buckets_inv agg \<Longrightarrow> (k, texts) \<in> set agg \<Longrightarrow>
   is_valid_placename (fst k) \<and> (\<forall>t\<in>set texts. stored_ok t)"
  by (auto simp: buckets_inv_def bucket_ok_def list_all_iff)

section \<open>Evaluation of the example directories\<close>

lemmas run_defs = process_line_def open_place_def attach_line_def residual_content_def
  has_key_def py_find_def slice_from_def extract_valid_placename_def clean_line_start_def
  clean_loop.simps Let_def file_1_def

lemma aggregate_docs_A:
  "aggregate docs_A = Inr [(([0x6C5F, 0x9675, 0x7E23], file_1), [[0x5C6C, 0x5357, 0x90E1]])]"
  by (simp add: aggregate_def docs_A_def run_defs eval_defs)

lemma extract_docs_A: "extract_from_directory docs_A = Inr [record_A]"
  by (simp add: extract_from_directory_def aggregate_docs_A combined_text_def record_A_def file_1_def)

lemma resolved_docs_A: "resolved_pipeline docs_A = Inr [record_A_resolved]"
  using validate_record_A
  by (simp add: resolved_pipeline_def aggregate_docs_A combined_text_def List.map_filter_simps
        record_A_def file_1_def)

lemma aggregate_docs_B:
  "aggregate docs_B = Inr [(([0x6C5F, 0x9675, 0x7E23], file_1), [[0xFF0C, 0x4E5F]])]"
  by (simp add: aggregate_def docs_B_def run_defs eval_defs)

lemma aggregate_docs_C:
  "aggregate docs_C = Inr [(([0x6C5F, 0x9675, 0x7E23], file_1),
     [[0x6F22, 0x7F6E], [0x4E5F], [0x6F22, 0x7F6E], [0x6D41]])]"
  by (simp add: aggregate_def docs_C_def run_defs eval_defs)

lemma extract_docs_C:
  "extract_from_directory docs_C =
     Inr [\<lparr>placename = [0x6C5F, 0x9675, 0x7E23],
            text' = [0x6F22, 0x7F6E, 0x20, 0x4E5F, 0x20, 0x6D41], source = file_1\<rparr>]"
  by (simp add: extract_from_directory_def aggregate_docs_C combined_text_def)

lemma extract_comma_line: "extract_valid_placename [0xFF0C, 0x4E5F] = None"
  by (simp add: run_defs eval_defs)

section \<open>Claims about the extraction pass\<close>

text \<open>
  C1. For every sequence of files and lines the extraction pass returns a list of
  records (the dictionary is never indexed with a key it lacks), and the name of every
  record in it satisfies the standalone validator; in particular it is not empty.
\<close>

theorem emitted_names_valid:
  "\<exists>records. extract_from_directory files = Inr records \<and>
     (\<forall>r\<in>set records. is_valid_placename (placename r) \<and> placename r \<noteq> [])"
proof -
  from aggregate_inv [of files] obtain agg where
    agg: "aggregate files = Inr agg" "buckets_inv agg" by blast
  have "\<forall>r\<in>set (to_records agg). is_valid_placename (placename r) \<and> placename r \<noteq> []"
  proof
    fix r assume "r \<in> set (to_records agg)"
    then obtain name src texts where
      m: "((name, src), texts) \<in> set agg" "placename r = name"
      by (auto simp: to_records_member)
    from bucket_ok_member [OF agg(2) m(1)] have v: "is_valid_placename name" by simp
    then have "name \<noteq> []" by (auto simp: is_valid_placename_def)
    with v m(2) show "is_valid_placename (placename r) \<and> placename r \<noteq> []" by simp
  qed
  with extract_from_directory_aggregate [OF agg(1)] show ?thesis by blast
qed

theorem emitted_names_valid_witness:
  "extract_from_directory docs_A = Inr [record_A] \<and> is_valid_placename (placename record_A) \<and>
   placename record_A = [0x6C5F, 0x9675, 0x7E23]"
proof -
  from emitted_names_valid [of docs_A] obtain records where
    r: "extract_from_directory docs_A = Inr records"
       "\<forall>r\<in>set records. is_valid_placename (placename r) \<and> placename r \<noteq> []" by blast
  from r(1) extract_docs_A have "records = [record_A]" by simp
  with r(2) have "is_valid_placename (placename record_A)" by simp
  then show ?thesis by (simp add: extract_docs_A) (simp add: record_A_def)
qed

text \<open>
  C2. The specification has re-resolution run on every non-empty bucket after the pass,
  and a record emitted only under the name it yields. The code defines
  \<open>validate_and_resolve\<close>, but neither \<open>extract_from_directory\<close> nor \<open>main\<close>
  calls it. On the directory with the line of Scenario A the pass emits the record
  under the detected name, where the pipeline with re-resolution emits it under the
  first validated candidate of its text.
\<close>

theorem pass_skips_re_resolution:
  "extract_from_directory docs_A = Inr [record_A] \<and>
   resolved_pipeline docs_A = Inr [record_A_resolved] \<and>
   extract_from_directory docs_A \<noteq> resolved_pipeline docs_A"
  by (simp add: extract_docs_A resolved_docs_A record_A_def record_A_resolved_def)

text \<open>
  C3, as stated, fails for continuation lines: they are stored whole. After a name, a
  line that starts with a fullwidth comma is stored with the comma.
\<close>

theorem continuation_keeps_separator_counterexample:
  "aggregate docs_B = Inr [(([0x6C5F, 0x9675, 0x7E23], file_1), [[0xFF0C, 0x4E5F]])] \<and>
   hd [0xFF0C, 0x4E5F :: uchar] = 0xFF0C \<and> (0xFF0C :: uchar) \<in> set strip_chars"
  by (simp add: aggregate_docs_B strip_chars_def)

text \<open>
  C3, amended. Every string stored in a bucket is non-empty and does not start with a
  space. The text after a detected name, when it is stored, does not start with any of
  the stripped separators. A continuation line is stored as the stripped line, so a
  stored string starts with one of the separators only if no name is detected on it.
\<close>

theorem stored_contributions:
  "(\<exists>agg. aggregate files = Inr agg \<and>
      (\<forall>b\<in>set agg. \<forall>t\<in>set (snd b). t \<noteq> [] \<and> hd t \<noteq> 0x20 \<and>
         (hd t \<in> set strip_chars \<longrightarrow> extract_valid_placename t = None))) \<and>
   (residual_content line p \<noteq> [] \<longrightarrow> hd (residual_content line p) \<notin> set strip_chars)"
proof -
  from aggregate_inv [of files] obtain agg where
    agg: "aggregate files = Inr agg" "buckets_inv agg" by blast
  have "\<forall>b\<in>set agg. \<forall>t\<in>set (snd b). t \<noteq> [] \<and> hd t \<noteq> 0x20 \<and>
         (hd t \<in> set strip_chars \<longrightarrow> extract_valid_placename t = None)"
  proof (intro ballI)
    fix b t assume "b \<in> set agg" "t \<in> set (snd b)"
    with bucket_ok_member [OF agg(2), of "fst b" "snd b"] have "stored_ok t" by simp
    then show "t \<noteq> [] \<and> hd t \<noteq> 0x20 \<and>
         (hd t \<in> set strip_chars \<longrightarrow> extract_valid_placename t = None)"
      by (simp add: stored_ok_def)
  qed
  with agg(1) hd_residual_content [of line p] show ?thesis by blast
qed

theorem stored_contributions_witness:
  "aggregate docs_B = Inr [(([0x6C5F, 0x9675, 0x7E23], file_1), [[0xFF0C, 0x4E5F]])] \<and>
   hd [0xFF0C, 0x4E5F :: uchar] \<in> set strip_chars \<and>
   extract_valid_placename [0xFF0C, 0x4E5F] = None \<and>
   residual_content [0x6C5F, 0x9675, 0x7E23, 0xFF0C, 0x6F22, 0x7F6E] [0x6C5F, 0x9675, 0x7E23]
     = [0x6F22, 0x7F6E] \<and>
   hd (residual_content [0x6C5F, 0x9675, 0x7E23, 0xFF0C, 0x6F22, 0x7F6E] [0x6C5F, 0x9675, 0x7E23])
     \<notin> set strip_chars"
proof -
  let ?line = "[0x6C5F, 0x9675, 0x7E23, 0xFF0C, 0x6F22, 0x7F6E] :: ustr"
  let ?p = "[0x6C5F, 0x9675, 0x7E23] :: ustr"
  have rc: "residual_content ?line ?p = [0x6F22, 0x7F6E]"
    by (simp add: residual_content_def py_find_def slice_from_def lstrip_def strip_chars_def)
  from stored_contributions [of docs_B ?line ?p] obtain agg where
    a: "aggregate docs_B = Inr agg"
       "\<forall>b\<in>set agg. \<forall>t\<in>set (snd b). t \<noteq> [] \<and> hd t \<noteq> 0x20 \<and>
          (hd t \<in> set strip_chars \<longrightarrow> extract_valid_placename t = None)"
    and c: "residual_content ?line ?p \<noteq> [] \<longrightarrow> hd (residual_content ?line ?p) \<notin> set strip_chars"
    by blast
  from a(1) aggregate_docs_B
  have "agg = [(([0x6C5F, 0x9675, 0x7E23], file_1), [[0xFF0C, 0x4E5F]])]" by simp
  with a(2) have "hd [0xFF0C, 0x4E5F :: uchar] \<in> set strip_chars \<longrightarrow>
      extract_valid_placename [0xFF0C, 0x4E5F] = None" by simp
  moreover have h: "hd [0xFF0C, 0x4E5F :: uchar] \<in> set strip_chars" by (simp add: strip_chars_def)
  ultimately have "extract_valid_placename [0xFF0C, 0x4E5F] = None" by blast
  moreover from c rc have "hd (residual_content ?line ?p) \<notin> set strip_chars" by simp
  ultimately show ?thesis using h rc aggregate_docs_B by simp
qed

text \<open>
  C5. The pass leaves the dictionary that the list of attributions describes: its keys
  are the pairs of name and file in the order of their first attribution, each once,
  and the bucket of a key holds every non-empty text attributed to it, in the order of
  the lines, wherever in the document the name was detected. So the pass emits at most
  one record for a pair of name and file, one for each key with a non-empty bucket, and
  the text of the record is the texts of the key, each once at the place of its first
  occurrence, joined by a space. In one step: when a name that already has a bucket under
  the file is detected again, no key is added, the text after the name goes to the end of
  that bucket and the other buckets stay as they are; a continuation line likewise goes
  to the end of the bucket of the open name.
\<close>

theorem one_record_per_key:
  "(\<exists>agg. aggregate files = Inr agg \<and> extract_from_directory files = Inr (to_records agg) \<and>
      distinct (map fst agg) \<and> map fst agg = keys_of (attributions files) \<and>
      (\<forall>k. get_bucket agg k = texts_of k (attributions files)) \<and>
      distinct (map (\<lambda>r. (placename r, source r)) (to_records agg)) \<and>
      map (\<lambda>r. (placename r, source r)) (to_records agg) =
        filter (\<lambda>k. texts_of k (attributions files) \<noteq> []) (keys_of (attributions files)) \<and>
      (\<forall>r\<in>set (to_records agg).
         text' r =
           join [0x20] (fromkeys (texts_of (placename r, source r) (attributions files))))) \<and>
   distinct (fromkeys texts) \<and> set (fromkeys texts) = set texts \<and>
   fromkeys texts = rev (remdups (rev texts)) \<and>
   (distinct (map fst agg0) \<and> has_key (p, fname) agg0 \<longrightarrow>
      map fst (fst (open_place fname agg0 p line)) = map fst agg0 \<and>
      get_bucket (fst (open_place fname agg0 p line)) (p, fname) =
        get_bucket agg0 (p, fname) @
          (if residual_content line p \<noteq> [] then [residual_content line p] else []) \<and>
      (\<forall>k. k \<noteq> (p, fname) \<longrightarrow>
         get_bucket (fst (open_place fname agg0 p line)) k = get_bucket agg0 k)) \<and>
   (distinct (map fst agg0) \<and> has_key (lp, fname) agg0 \<and> lp \<noteq> [] \<longrightarrow>
      (\<exists>agg'. attach_line fname agg0 (Some lp) line = Inr (agg', Some lp) \<and>
         map fst agg' = map fst agg0 \<and>
         get_bucket agg' (lp, fname) = get_bucket agg0 (lp, fname) @ [line]))"
proof -
  let ?evs = "attributions files"
  from aggregate_represents [of files] obtain agg where
    agg: "aggregate files = Inr agg" "buckets_inv agg" "represents agg ?evs" by blast
  then have d: "distinct (map fst agg)" by (simp add: buckets_inv_def)
  from agg(3) have keys: "map fst agg = keys_of ?evs"
    and texts: "\<forall>k. get_bucket agg k = texts_of k ?evs"
    unfolding represents_def by blast+
  have dr: "distinct (map (\<lambda>r. (placename r, source r)) (to_records agg))"
    unfolding to_records_keys using d by (rule distinct_map_filter)
  have "map (\<lambda>r. (placename r, source r)) (to_records agg) =
      filter (\<lambda>k. get_bucket agg k \<noteq> []) (map fst agg)"
    by (simp add: to_records_keys filter_nonempty_buckets [OF agg(2)] nonempty_bucket_keys [OF d])
  moreover from texts
  have "(\<lambda>k. get_bucket agg k \<noteq> []) = (\<lambda>k. texts_of k ?evs \<noteq> [])"
    by auto
  ultimately have rk: "map (\<lambda>r. (placename r, source r)) (to_records agg) =
      filter (\<lambda>k. texts_of k ?evs \<noteq> []) (keys_of ?evs)"
    using keys by simp
  have tx: "\<forall>r\<in>set (to_records agg).
         text' r = join [0x20] (fromkeys (texts_of (placename r, source r) ?evs))"
  proof
    fix r assume "r \<in> set (to_records agg)"
    then obtain name src texts where
      m: "((name, src), texts) \<in> set agg"
         "r = \<lparr>placename = name, text' = combined_text texts, source = src\<rparr>"
      by (auto simp: to_records_member)
    from get_bucket_member [OF d m(1)] m(2)
    have "text' r = join [0x20] (fromkeys (get_bucket agg (placename r, source r)))"
      by (simp add: combined_text_def)
    with texts show "text' r = join [0x20] (fromkeys (texts_of (placename r, source r) ?evs))"
      by simp
  qed
  have 1: "\<exists>agg. aggregate files = Inr agg \<and> extract_from_directory files = Inr (to_records agg) \<and>
      distinct (map fst agg) \<and> map fst agg = keys_of ?evs \<and>
      (\<forall>k. get_bucket agg k = texts_of k ?evs) \<and>
      distinct (map (\<lambda>r. (placename r, source r)) (to_records agg)) \<and>
      map (\<lambda>r. (placename r, source r)) (to_records agg) =
        filter (\<lambda>k. texts_of k ?evs \<noteq> []) (keys_of ?evs) \<and>
      (\<forall>r\<in>set (to_records agg).
         text' r = join [0x20] (fromkeys (texts_of (placename r, source r) ?evs)))"
    using agg(1) extract_from_directory_aggregate [OF agg(1)] d keys texts dr rk tx by blast
  have 2: "distinct (map fst agg0) \<and> has_key (p, fname) agg0 \<longrightarrow>
      map fst (fst (open_place fname agg0 p line)) = map fst agg0 \<and>
      get_bucket (fst (open_place fname agg0 p line)) (p, fname) =
        get_bucket agg0 (p, fname) @
          (if residual_content line p \<noteq> [] then [residual_content line p] else []) \<and>
      (\<forall>k. k \<noteq> (p, fname) \<longrightarrow>
         get_bucket (fst (open_place fname agg0 p line)) k = get_bucket agg0 k)"
    by (simp add: open_place_def Let_def map_fst_append_to get_bucket_append_to)
  have 3: "distinct (map fst agg0) \<and> has_key (lp, fname) agg0 \<and> lp \<noteq> [] \<longrightarrow>
      (\<exists>agg'. attach_line fname agg0 (Some lp) line = Inr (agg', Some lp) \<and>
         map fst agg' = map fst agg0 \<and>
         get_bucket agg' (lp, fname) = get_bucket agg0 (lp, fname) @ [line])"
    by (simp add: attach_line_def map_fst_append_to get_bucket_append_to)
  from 1 2 3 fromkeys_distinct [of texts] fromkeys_set [of texts] fromkeys_remdups [of texts]
  show ?thesis by blast
qed

theorem one_record_per_key_witness:
  "aggregate docs_C = Inr [(([0x6C5F, 0x9675, 0x7E23], file_1),
     [[0x6F22, 0x7F6E], [0x4E5F], [0x6F22, 0x7F6E], [0x6D41]])] \<and>
   texts_of ([0x6C5F, 0x9675, 0x7E23], file_1) (attributions docs_C) =
     [[0x6F22, 0x7F6E], [0x4E5F], [0x6F22, 0x7F6E], [0x6D41]] \<and>
   keys_of (attributions docs_C) = [([0x6C5F, 0x9675, 0x7E23], file_1)] \<and>
   extract_from_directory docs_C =
     Inr [\<lparr>placename = [0x6C5F, 0x9675, 0x7E23],
            text' = [0x6F22, 0x7F6E, 0x20, 0x4E5F, 0x20, 0x6D41], source = file_1\<rparr>] \<and>
   has_key ([0x6C5F, 0x9675, 0x7E23], file_1)
     [(([0x6C5F, 0x9675, 0x7E23], file_1), [[0x6F22, 0x7F6E], [0x4E5F]])] \<and>
   get_bucket (fst (open_place file_1
       [(([0x6C5F, 0x9675, 0x7E23], file_1), [[0x6F22, 0x7F6E], [0x4E5F]])]
       [0x6C5F, 0x9675, 0x7E23] [0x6C5F, 0x9675, 0x7E23, 0x3002, 0x6F22, 0x7F6E]))
     ([0x6C5F, 0x9675, 0x7E23], file_1) = [[0x6F22, 0x7F6E], [0x4E5F], [0x6F22, 0x7F6E]]"
proof -
  let ?p = "[0x6C5F, 0x9675, 0x7E23] :: ustr"
  let ?line = "[0x6C5F, 0x9675, 0x7E23, 0x3002, 0x6F22, 0x7F6E] :: ustr"
  let ?agg0 = "[((?p, file_1), [[0x6F22, 0x7F6E], [0x4E5F]])] :: buckets"
  let ?aggC = "[((?p, file_1), [[0x6F22, 0x7F6E], [0x4E5F], [0x6F22, 0x7F6E], [0x6D41]])] :: buckets"
  have hk: "distinct (map fst ?agg0) \<and> has_key (?p, file_1) ?agg0"
    by (simp add: has_key_def)
  have rc: "residual_content ?line ?p = [0x6F22, 0x7F6E]"
    by (simp add: residual_content_def py_find_def slice_from_def lstrip_def strip_chars_def)
  have gb: "get_bucket ?agg0 (?p, file_1) = [[0x6F22, 0x7F6E], [0x4E5F]]"
    by (simp add: get_bucket_def)
  note inst = one_record_per_key [of docs_C "[]" ?agg0 ?p file_1 ?line]
  from inst obtain agg where
    a: "aggregate docs_C = Inr agg" "map fst agg = keys_of (attributions docs_C)"
       "\<forall>k. get_bucket agg k = texts_of k (attributions docs_C)"
    by blast
  from a(1) aggregate_docs_C have agg: "agg = ?aggC" by simp
  from a(3) have "texts_of (?p, file_1) (attributions docs_C) = get_bucket ?aggC (?p, file_1)"
    unfolding agg by simp
  then have t: "texts_of (?p, file_1) (attributions docs_C) =
      [[0x6F22, 0x7F6E], [0x4E5F], [0x6F22, 0x7F6E], [0x6D41]]"
    by (simp add: get_bucket_def)
  from a(2) have k: "keys_of (attributions docs_C) = [(?p, file_1)]"
    unfolding agg by simp
  from inst hk
  have "get_bucket (fst (open_place file_1 ?agg0 ?p ?line)) (?p, file_1) =
        get_bucket ?agg0 (?p, file_1) @
          (if residual_content ?line ?p \<noteq> [] then [residual_content ?line ?p] else [])"
    by blast
  with rc gb have "get_bucket (fst (open_place file_1 ?agg0 ?p ?line)) (?p, file_1) =
      [[0x6F22, 0x7F6E], [0x4E5F], [0x6F22, 0x7F6E]]" by simp
  with hk t k aggregate_docs_C extract_docs_C show ?thesis by simp
qed

end
